theory Spec2Isabelle
  imports Main
begin

section \<open>Bytes and character classes\<close>

text \<open>
  The Go code works on byte slices (\<open>[]byte\<close>); a byte is modelled by \<^typ>\<open>char\<close>
  (eight bits) and a slice's contents by a \<^typ>\<open>char list\<close>.
\<close>

abbreviation squote :: char where "squote \<equiv> CHR 0x27"
abbreviation dquote :: char where "dquote \<equiv> CHR 0x22"
abbreviation bslash :: char where "bslash \<equiv> CHR 0x5C"
abbreviation newline :: char where "newline \<equiv> CHR 0x0A"
abbreviation cret :: char where "cret \<equiv> CHR 0x0D"
abbreviation nul :: char where "nul \<equiv> CHR 0x00"

text \<open>
  \<open>unicode.IsSpace(rune(c))\<close> for a single byte \<open>c\<close>. The function belongs to Go's standard
  library, not to this repository; for code points up to U+00FF it is documented to hold
  exactly for tab, line feed, vertical tab, form feed, carriage return, space, U+0085 and
  U+00A0.
\<close>

definition isSpace :: "char \<Rightarrow> bool" where
  "isSpace c \<longleftrightarrow>
     c = CHR 0x09 \<or> c = CHR 0x0A \<or> c = CHR 0x0B \<or> c = CHR 0x0C \<or> c = CHR 0x0D \<or>
     c = CHR 0x20 \<or> c = CHR 0x85 \<or> c = CHR 0xA0"

section \<open>The word tokenizer (\<open>tokenize\<close>, \<open>countMaxTokens\<close>)\<close>

text \<open>Run-time panics of Go that the slice operations of \<open>tokenize\<close> could raise.\<close>

datatype panic = SliceBoundsOutOfRange | IndexOutOfRange

text \<open>
  The local variables of \<open>tokenize\<close> together with the backing array of \<open>data\<close>, which the
  loop overwrites. A token is a sub-slice \<open>data[lo:hi]\<close> of that same array, so it is kept
  as the pair of its bounds: its bytes are whatever the array holds when it is read.
\<close>

record tok_state =
  tokens :: "(int \<times> int) list"
  start :: int
  shift :: int
  wasSpace :: bool
  escaped :: bool
  quote :: char
  data :: "char list"

definition tok_init :: "char list \<Rightarrow> tok_state" where
  "tok_init d = \<lparr>tokens = [], start = - 1, shift = 0, wasSpace = True, escaped = False,
                 quote = nul, data = d\<rparr>"

text \<open>
  The slice expression \<open>data[lo:hi]\<close>: Go panics unless \<open>0 \<le> lo \<le> hi \<le> cap(data)\<close>. The
  capacity is at least the length; the model checks against the length.
\<close>

definition slice :: "char list \<Rightarrow> int \<Rightarrow> int \<Rightarrow> panic + (int \<times> int)" where
  "slice d lo hi =
     (if 0 \<le> lo \<and> lo \<le> hi \<and> hi \<le> int (length d) then Inr (lo, hi)
      else Inl SliceBoundsOutOfRange)"

text \<open>Lines 354--373 of the loop body: the result is the flag \<open>del\<close> and the new state.\<close>

definition tok_classify :: "nat \<Rightarrow> char \<Rightarrow> tok_state \<Rightarrow> panic + (bool \<times> tok_state)" where
  "tok_classify i c st =
     (if \<not> escaped st then
        if quote st = nul then
          let isq = (c = squote \<or> c = dquote);
              st1 = (if isq then st\<lparr>quote := c\<rparr> else st);
              space = isSpace c
          in if wasSpace st1 \<and> \<not> space then
               Inr (isq, st1\<lparr>start := int i - shift st1, wasSpace := space\<rparr>)
             else if \<not> wasSpace st1 \<and> space then
               (case slice (data st1) (start st1) (int i - shift st1) of
                  Inl e \<Rightarrow> Inl e
                | Inr t \<Rightarrow>
                    Inr (isq, st1\<lparr>tokens := tokens st1 @ [t], start := - 1, wasSpace := space\<rparr>))
             else Inr (isq, st1\<lparr>wasSpace := space\<rparr>)
        else if c = quote st then Inr (True, st\<lparr>quote := nul\<rparr>)
        else Inr (False, st)
      else Inr (False, st))"

text \<open>
  One iteration of \<open>for i, c := range data\<close>. The element \<open>c\<close> is read from the array as it
  is at iteration \<open>i\<close>; the loop runs only for \<open>i < len(data)\<close>.
\<close>

definition tok_body :: "nat \<Rightarrow> tok_state \<Rightarrow> panic + tok_state" where
  "tok_body i st =
     (let c = data st ! i in
      case tok_classify i c st of
        Inl e \<Rightarrow> Inl e
      | Inr (del, st1) \<Rightarrow>
          let st2 = st1\<lparr>escaped := (\<not> escaped st1 \<and> c = bslash)\<rparr>;
              j = int i - shift st2
          in if escaped st2 \<or> del then Inr (st2\<lparr>shift := shift st2 + 1\<rparr>)
             else if 0 \<le> j \<and> j < int (length (data st2)) then
               Inr (st2\<lparr>data := (data st2)[nat j := c]\<rparr>)
             else Inl IndexOutOfRange)"

text \<open>
  The iterations \<open>i, i + 1, \<dots>, n - 1\<close> of the loop. In \<open>tokenize\<close> the bound \<open>n\<close> is
  \<open>len(data)\<close>, fixed when the loop starts; a smaller \<open>n\<close> gives the state the loop is in
  after its first \<open>n\<close> iterations.
\<close>

function tok_loop :: "nat \<Rightarrow> nat \<Rightarrow> tok_state \<Rightarrow> panic + tok_state" where
  "tok_loop n i st =
     (if i < n then
        (case tok_body i st of Inl e \<Rightarrow> Inl e | Inr st' \<Rightarrow> tok_loop n (Suc i) st')
      else Inr st)"
  by pat_completeness auto
termination
  by (relation "measure (\<lambda>(n, i, st). n - i)") auto

declare tok_loop.simps [simp del]

text \<open>
  \<open>tokenize\<close>: the token list (as slice bounds) and the array after the call. The capacity
  hint \<open>countMaxTokens(data)\<close> given to \<open>make\<close> does not change what \<open>append\<close> returns.
\<close>

definition tokenize :: "char list \<Rightarrow> panic + ((int \<times> int) list \<times> char list)" where
  "tokenize d =
     (case tok_loop (length d) 0 (tok_init d) of
        Inl e \<Rightarrow> Inl e
      | Inr st \<Rightarrow>
          if start st \<noteq> - 1 then
            (case slice (data st) (start st) (int (length (data st)) - shift st) of
               Inl e \<Rightarrow> Inl e
             | Inr t \<Rightarrow> Inr (tokens st @ [t], data st))
          else Inr (tokens st, data st))"

text \<open>The bytes of the slice \<open>buf[lo:hi]\<close>, as \<open>string(token)\<close> reads them.\<close>

definition bytes_of :: "char list \<Rightarrow> int \<times> int \<Rightarrow> char list" where
  "bytes_of buf t = take (nat (snd t) - nat (fst t)) (drop (nat (fst t)) buf)"

text \<open>\<open>tokenList.strings\<close> applied to the result of \<open>tokenize\<close>.\<close>

definition tokenize_strings :: "char list \<Rightarrow> panic + char list list" where
  "tokenize_strings d =
     (case tokenize d of Inl e \<Rightarrow> Inl e | Inr (ts, buf) \<Rightarrow> Inr (map (bytes_of buf) ts))"

text \<open>\<open>countMaxTokens\<close>: the loop over the bytes with its two variables, then the function.\<close>

fun countMaxTokens_loop :: "char list \<Rightarrow> nat \<Rightarrow> bool \<Rightarrow> nat" where
  "countMaxTokens_loop [] n ws = n"
| "countMaxTokens_loop (c # cs) n ws =
     (let space = isSpace c
      in countMaxTokens_loop cs (if ws \<and> \<not> space then n + 1 else n) space)"

definition countMaxTokens :: "char list \<Rightarrow> nat" where
  "countMaxTokens d = countMaxTokens_loop d 0 True"

text \<open>
  The bytes the loop has written when it is about to run iteration \<open>i\<close>: the slice
  \<open>data[0 : i - shift]\<close>.
\<close>

definition decoded :: "nat \<Rightarrow> tok_state \<Rightarrow> char list" where
  "decoded i st = take (nat (int i - shift st)) (data st)"


section \<open>The line assembler (\<open>lineReader.Read\<close>, \<open>dropCR\<close>, \<open>scanLines\<close>)\<close>

text \<open>
  The variables of \<open>lineReader.Read\<close>: the result \<open>n\<close>, the shift count, the escape flag
  and the array behind \<open>data\<close>, which the loop overwrites.
\<close>

record read_state =
  r_n :: int
  r_shift :: int
  r_escaped :: bool
  r_data :: "char list"

text \<open>One iteration of \<open>for i, c := range data[:n]\<close>.\<close>

definition read_body :: "nat \<Rightarrow> read_state \<Rightarrow> panic + read_state" where
  "read_body i st =
     (let c = r_data st ! i;
          esc = (\<not> r_escaped st \<and> c = bslash)
      in if r_escaped st \<and> c = newline then
           Inr (st\<lparr>r_shift := r_shift st + 2, r_n := r_n st - 2, r_escaped := esc\<rparr>)
         else
           let j = int i - r_shift st
           in if 0 \<le> j \<and> j < int (length (r_data st)) then
                Inr (st\<lparr>r_data := (r_data st)[nat j := c], r_escaped := esc\<rparr>)
              else Inl IndexOutOfRange)"

function read_loop :: "nat \<Rightarrow> nat \<Rightarrow> read_state \<Rightarrow> panic + read_state" where
  "read_loop m i st =
     (if i < m then
        (case read_body i st of Inl e \<Rightarrow> Inl e | Inr st' \<Rightarrow> read_loop m (Suc i) st')
      else Inr st)"
  by pat_completeness auto
termination
  by (relation "measure (\<lambda>(m, i, st). m - i)") auto

declare read_loop.simps [simp del]

text \<open>
  \<open>lineReader.Read\<close>, after the source reader has stored \<open>n\<close> bytes in \<open>data\<close> (the array
  then holds \<open>d\<close>): the returned count and the array after the call. The range expression
  \<open>data[:n]\<close> is evaluated once, with the count the source returned. The error value of
  the source is handed on unchanged and is not modelled.
\<close>

definition lineReader_Read :: "char list \<Rightarrow> nat \<Rightarrow> panic + (int \<times> char list)" where
  "lineReader_Read d n =
     (if n \<le> length d then
        (case read_loop n 0 \<lparr>r_n = int n, r_shift = 0, r_escaped = False, r_data = d\<rparr> of
           Inl e \<Rightarrow> Inl e
         | Inr st \<Rightarrow> Inr (r_n st, r_data st))
      else Inl SliceBoundsOutOfRange)"

text \<open>The bytes \<open>data[:n]\<close> that the caller of \<open>Read\<close> takes from the array.\<close>

definition read_bytes :: "char list \<Rightarrow> nat \<Rightarrow> panic + char list" where
  "read_bytes d n =
     (case lineReader_Read d n of
        Inl e \<Rightarrow> Inl e
      | Inr (m, buf) \<Rightarrow>
          if 0 \<le> m \<and> m \<le> int (length buf) then Inr (take (nat m) buf)
          else Inl SliceBoundsOutOfRange)"

definition dropCR :: "char list \<Rightarrow> char list" where
  "dropCR d =
     (if length d > 0 \<and> d ! (length d - 1) = cret then take (length d - 1) d else d)"

text \<open>
  The loop of \<open>scanLines\<close> from index \<open>i\<close> on, over the bytes not yet visited: the index of
  the newline at which the function returns, or \<open>None\<close> when the loop runs to the end.
\<close>

fun scanLines_loop :: "char list \<Rightarrow> nat \<Rightarrow> bool \<Rightarrow> char \<Rightarrow> nat option" where
  "scanLines_loop [] i esc q = None"
| "scanLines_loop (c # cs) i esc q =
     (if q = nul then
        if c = newline then Some i
        else scanLines_loop cs (i + 1) (\<not> esc \<and> c = bslash)
               (if \<not> esc \<and> (c = squote \<or> c = dquote) then c else q)
      else scanLines_loop cs (i + 1) (\<not> esc \<and> c = bslash)
             (if \<not> esc \<and> c = q then nul else q))"

text \<open>
  \<open>scanLines\<close>: the number of bytes to advance and the token, \<open>None\<close> standing for the
  \<open>nil\<close> token that asks for more data. The error result is always \<open>nil\<close>.
\<close>

definition scanLines :: "char list \<Rightarrow> bool \<Rightarrow> nat \<times> char list option" where
  "scanLines d atEOF =
     (if atEOF \<and> length d = 0 then (0, None)
      else case scanLines_loop d 0 False nul of
             Some i \<Rightarrow> (i + 1, Some (dropCR (take i d)))
           | None \<Rightarrow> if atEOF then (length d, Some (dropCR d)) else (0, None))"

text \<open>
  The two variables of the loop of \<open>scanLines\<close>, the escape flag and the open quote
  (\<open>nul\<close> for none), after an iteration that does not return, and after a run of such
  iterations from the start.
\<close>

definition line_step :: "bool \<times> char \<Rightarrow> char \<Rightarrow> bool \<times> char" where
  "line_step s c =
     (\<not> fst s \<and> c = bslash,
      if snd s = nul then (if \<not> fst s \<and> (c = squote \<or> c = dquote) then c else snd s)
      else if \<not> fst s \<and> c = snd s then nul else snd s)"

definition line_state :: "char list \<Rightarrow> bool \<times> char" where
  "line_state cs = foldl line_step (False, nul) cs"

text \<open>
  The bytes a consumer takes from a \<open>lineReader\<close> over successive calls of \<open>Read\<close>, when
  the source reader delivers the stream in the chunks \<open>chs\<close>, one per call: the results
  of the calls, one after the other. Every call runs the loop above from its start.
\<close>

fun read_chunks :: "char list list \<Rightarrow> panic + char list" where
  "read_chunks [] = Inr []"
| "read_chunks (ch # chs) =
     (case read_bytes ch (length ch) of
        Inl e \<Rightarrow> Inl e
      | Inr out \<Rightarrow> (case read_chunks chs of Inl e \<Rightarrow> Inl e | Inr r \<Rightarrow> Inr (out @ r)))"

text \<open>
  \<open>newLineScanner\<close> and the loop \<open>for scanner.Scan()\<close> of \<open>mapLines\<close>: all the lines that
  the scanner returns, given the unread bytes \<open>buf\<close> it holds, the chunks \<open>chs\<close> that the
  source will still deliver and whether the end of the input has been seen.
  \<open>bufio.Scanner\<close> belongs to Go's standard library, not to this repository; it is
  modelled from its documentation and source. \<open>Scan\<close> calls the split function on the
  unread bytes when there are any or the input has ended, and refuses an advance beyond
  them. A non-nil token is returned and the scanner advances. Without a token the scan
  is over if the input has ended; otherwise the scanner reads once more from its reader,
  appends what it gets to the unread bytes, and records the end of the input when the
  reader reports it. A non-nil token with no advance would make Go's scanner return the
  same token again (a panic after a hundred of them at the end of the input): the model
  stops with \<open>NoProgress\<close>. The limits on the buffer size and on consecutive empty reads, and
  read errors other than the end of the input, are not modelled.
\<close>

datatype scan_error = ReadPanic panic | ErrAdvanceTooFar | NoProgress

function scan_lines :: "char list \<Rightarrow> char list list \<Rightarrow> bool \<Rightarrow> scan_error + char list list" where
  "scan_lines buf chs eof =
     (case (if buf \<noteq> [] \<or> eof then scanLines buf eof else (0, None)) of
        (adv, token) \<Rightarrow>
          if adv > length buf then Inl ErrAdvanceTooFar
          else case token of
            Some tok \<Rightarrow>
              if adv = 0 then Inl NoProgress
              else (case scan_lines (drop adv buf) chs eof of
                      Inl e \<Rightarrow> Inl e
                    | Inr ls \<Rightarrow> Inr (tok # ls))
          | None \<Rightarrow>
              if eof then Inr []
              else (case chs of
                      [] \<Rightarrow> scan_lines (drop adv buf) [] True
                    | ch # chs' \<Rightarrow>
                        (case read_bytes ch (length ch) of
                           Inl e \<Rightarrow> Inl (ReadPanic e)
                         | Inr out \<Rightarrow> scan_lines (drop adv buf @ out) chs' False)))"
  by pat_completeness auto
termination
  by (relation "inv_image (less_than <*lex*> less_than)
        (\<lambda>(buf, chs, eof). (length chs + (if eof then 0 else 1), length buf))") auto

declare scan_lines.simps [simp del]

text \<open>The line assembler on a stream delivered in the chunks \<open>chs\<close>.\<close>

definition assemble :: "char list list \<Rightarrow> scan_error + char list list" where
  "assemble chs = scan_lines [] chs False"


section \<open>Notions used to state the properties\<close>

text \<open>
  Splitting a string on maximal runs of whitespace, as the specification words it:
  leading whitespace is skipped, the longest whitespace-free prefix is a field, and the
  rest is split in the same way.
\<close>


function split_whitespace :: "char list \<Rightarrow> char list list" where
  "split_whitespace s =
     (case dropWhile isSpace s of
        [] \<Rightarrow> []
      | c # r \<Rightarrow>
          takeWhile (\<lambda>x. \<not> isSpace x) (c # r) # split_whitespace (dropWhile (\<lambda>x. \<not> isSpace x) (c # r)))"
  by pat_completeness auto
termination
proof (relation "measure length")
  show "wf (measure length)" by simp
next
  fix s :: "char list" and c r
  assume a: "dropWhile isSpace s = c # r"
  have "\<not> isSpace c"
    using a hd_dropWhile[of isSpace s] by auto
  then have "length (dropWhile (\<lambda>x. \<not> isSpace x) (c # r)) \<le> length r"
    by (simp add: length_dropWhile_le)
  also have "length r < length (dropWhile isSpace s)"
    using a by simp
  also have "\<dots> \<le> length s"
    by (rule length_dropWhile_le)
  finally show "(dropWhile (\<lambda>x. \<not> isSpace x) (c # r), s) \<in> measure length"
    by simp
qed

declare split_whitespace.simps [simp del]

text \<open>The members of a token list joined by single spaces.\<close>

fun join_sp :: "char list list \<Rightarrow> char list" where
  "join_sp [] = []"
| "join_sp [t] = t"
| "join_sp (t # u # ts) = t @ CHR '' '' # join_sp (u # ts)"

text \<open>The structural characters: the two quote characters and the backslash.\<close>

definition special :: "char \<Rightarrow> bool" where
  "special c \<longleftrightarrow> c = squote \<or> c = dquote \<or> c = bslash"

text \<open>
  The decoded bytes of an input: the input without its structural characters, that is,
  without the backslashes that escape the byte after them and without the quote
  characters that open or close a quoted region. The arguments say whether the first
  byte is escaped and which quote is open (\<open>nul\<close> for none).
\<close>

fun decode :: "char list \<Rightarrow> bool \<Rightarrow> char \<Rightarrow> char list" where
  "decode [] esc q = []"
| "decode (c # cs) esc q =
     (if esc then c # decode cs False q
      else if c = bslash then decode cs True q
      else if q = nul then
        (if c = squote \<or> c = dquote then decode cs False c else c # decode cs False nul)
      else if c = q then decode cs False nul
      else c # decode cs False q)"

text \<open>The number of backslashes at the end of a string.\<close>

definition trailing_bs :: "char list \<Rightarrow> nat" where
  "trailing_bs cs = length (takeWhile (\<lambda>c. c = bslash) (rev cs))"




section \<open>An array-free view of the tokenizer loop\<close>

text \<open>
  For the proofs the loop of \<open>tokenize\<close> is replayed on the list of input bytes: the
  decoder state keeps the bytes written so far (\<open>d_out\<close>) instead of the array and the
  shift count, and the lexer state keeps the finished tokens and the pending token as
  strings. The lemmas below show that the loop over the array computes exactly these.
\<close>


record dec_state =
  d_out :: "char list"
  d_tokens :: "(int \<times> int) list"
  d_start :: int
  d_wasSpace :: bool
  d_escaped :: bool
  d_quote :: char

definition dec_init :: dec_state where
  "dec_init = \<lparr>d_out = [], d_tokens = [], d_start = - 1, d_wasSpace = True,
               d_escaped = False, d_quote = nul\<rparr>"

definition dec_classify :: "char \<Rightarrow> dec_state \<Rightarrow> bool \<times> dec_state" where
  "dec_classify c B =
     (if \<not> d_escaped B then
        if d_quote B = nul then
          let isq = (c = squote \<or> c = dquote);
              B1 = (if isq then B\<lparr>d_quote := c\<rparr> else B);
              space = isSpace c;
              n = int (length (d_out B))
          in if d_wasSpace B1 \<and> \<not> space then (isq, B1\<lparr>d_start := n, d_wasSpace := space\<rparr>)
             else if \<not> d_wasSpace B1 \<and> space then
               (isq, B1\<lparr>d_tokens := d_tokens B1 @ [(d_start B1, n)], d_start := - 1,
                          d_wasSpace := space\<rparr>)
             else (isq, B1\<lparr>d_wasSpace := space\<rparr>)
        else if c = d_quote B then (True, B\<lparr>d_quote := nul\<rparr>)
        else (False, B)
      else (False, B))"

definition dec_step :: "char \<Rightarrow> dec_state \<Rightarrow> dec_state" where
  "dec_step c B =
     (case dec_classify c B of
        (del, B1) \<Rightarrow>
          let B2 = B1\<lparr>d_escaped := (\<not> d_escaped B1 \<and> c = bslash)\<rparr>
          in if d_escaped B2 \<or> del then B2 else B2\<lparr>d_out := d_out B2 @ [c]\<rparr>)"

primrec dec_run :: "char list \<Rightarrow> dec_state \<Rightarrow> dec_state" where
  "dec_run [] B = B"
| "dec_run (c # cs) B = dec_run cs (dec_step c B)"

text \<open>What every state of the replay satisfies, and how the array state relates to it.\<close>

definition dec_inv :: "dec_state \<Rightarrow> bool" where
  "dec_inv B \<longleftrightarrow>
     (d_wasSpace B \<longleftrightarrow> d_start B = - 1) \<and>
     (d_start B = - 1 \<or> (0 \<le> d_start B \<and> d_start B \<le> int (length (d_out B)))) \<and>
     (d_escaped B \<or> d_quote B \<noteq> nul \<longrightarrow> \<not> d_wasSpace B) \<and>
     (d_quote B = nul \<or> d_quote B = squote \<or> d_quote B = dquote) \<and>
     (\<forall>t \<in> set (d_tokens B). 0 \<le> fst t \<and> fst t \<le> snd t \<and> snd t \<le> int (length (d_out B)))"

definition tok_rel :: "char list \<Rightarrow> nat \<Rightarrow> tok_state \<Rightarrow> dec_state \<Rightarrow> bool" where
  "tok_rel orig i st B \<longleftrightarrow>
     tokens st = d_tokens B \<and> start st = d_start B \<and> wasSpace st = d_wasSpace B \<and>
     escaped st = d_escaped B \<and> quote st = d_quote B \<and>
     int i - shift st = int (length (d_out B)) \<and> length (d_out B) \<le> i \<and>
     data st = d_out B @ drop (length (d_out B)) orig"

text \<open>
  The same run on strings: the finished tokens, the pending token (if one is open), the
  escape flag and the open quote.
\<close>

type_synonym lex_state = "char list list \<times> char list option \<times> bool \<times> char"

definition opn :: "char list option \<Rightarrow> char list" where
  "opn p = (case p of None \<Rightarrow> [] | Some t \<Rightarrow> t)"

fun lex_step :: "char \<Rightarrow> lex_state \<Rightarrow> lex_state" where
  "lex_step c (done, pend, esc, q) =
     (if esc then (done, Some (opn pend @ [c]), False, q)
      else if q \<noteq> nul then
        (if c = q then (done, pend, False, nul)
         else if c = bslash then (done, pend, True, q)
         else (done, Some (opn pend @ [c]), False, q))
      else if c = squote \<or> c = dquote then (done, Some (opn pend), False, c)
      else if c = bslash then (done, Some (opn pend), True, nul)
      else if isSpace c then
        ((case pend of None \<Rightarrow> done | Some t \<Rightarrow> done @ [t]), None, False, nul)
      else (done, Some (opn pend @ [c]), False, nul))"

primrec lex_run :: "char list \<Rightarrow> lex_state \<Rightarrow> lex_state" where
  "lex_run [] A = A"
| "lex_run (c # cs) A = lex_run cs (lex_step c A)"

fun lex_fin :: "lex_state \<Rightarrow> char list list" where
  "lex_fin (done, pend, esc, q) = done @ (case pend of None \<Rightarrow> [] | Some t \<Rightarrow> [t])"

definition lex_init :: lex_state where
  "lex_init = ([], None, False, nul)"

text \<open>The strings that a state of the replay stands for, and its number of tokens.\<close>

definition dec_abs :: "dec_state \<Rightarrow> lex_state" where
  "dec_abs B =
     (map (bytes_of (d_out B)) (d_tokens B),
      (if d_start B = - 1 then None else Some (drop (nat (d_start B)) (d_out B))),
      d_escaped B, d_quote B)"

definition tok_count :: "dec_state \<Rightarrow> nat" where
  "tok_count B = length (d_tokens B) + (if d_start B = - 1 then 0 else 1)"

text \<open>The loop of \<open>lineReader.Read\<close> replayed on the list of bytes read.\<close>

definition rd_step :: "char list \<times> bool \<Rightarrow> char \<Rightarrow> char list \<times> bool" where
  "rd_step s c =
     (if snd s \<and> c = newline then (butlast (fst s), False)
      else (fst s @ [c], \<not> snd s \<and> c = bslash))"

definition rd_run :: "char list \<Rightarrow> char list \<times> bool \<Rightarrow> char list \<times> bool" where
  "rd_run cs s = foldl rd_step s cs"

text \<open>How the state of \<open>Read\<close> after \<open>i\<close> iterations relates to the replay.\<close>

definition rd_rel :: "char list \<Rightarrow> nat \<Rightarrow> nat \<Rightarrow> read_state \<Rightarrow> char list \<times> bool \<Rightarrow> bool" where
  "rd_rel orig n i st s \<longleftrightarrow>
     r_escaped st = snd s \<and> int i - r_shift st = int (length (fst s)) \<and>
     r_n st = int n - r_shift st \<and> take (length (fst s)) (r_data st) = fst s \<and>
     drop i (r_data st) = drop i orig \<and> length (r_data st) = length orig \<and>
     length (fst s) \<le> i \<and> (snd s \<longrightarrow> fst s \<noteq> [])"


section \<open>The tokenizer loop and its array-free views agree\<close>


lemma isSpace_special [simp]: "\<not> isSpace squote" "\<not> isSpace dquote" "\<not> isSpace bslash"
  by (simp_all add: isSpace_def)

lemma dec_inv_wasSpace: "dec_inv B \<Longrightarrow> d_wasSpace B \<longleftrightarrow> d_start B = - 1"
  by (simp add: dec_inv_def)

lemma dec_inv_start:
  "dec_inv B \<Longrightarrow> d_start B \<noteq> - 1 \<Longrightarrow> 0 \<le> d_start B \<and> d_start B \<le> int (length (d_out B))"
  by (simp add: dec_inv_def)

lemma dec_inv_open: "dec_inv B \<Longrightarrow> d_escaped B \<or> d_quote B \<noteq> nul \<Longrightarrow> d_start B \<noteq> - 1"
  unfolding dec_inv_def by blast

lemma dec_inv_quote: "dec_inv B \<Longrightarrow> d_quote B = nul \<or> d_quote B = squote \<or> d_quote B = dquote"
  by (simp add: dec_inv_def)

lemma dec_inv_tokens:
  "dec_inv B \<Longrightarrow> \<forall>t \<in> set (d_tokens B). 0 \<le> fst t \<and> fst t \<le> snd t \<and> snd t \<le> int (length (d_out B))"
  by (simp add: dec_inv_def)

lemma dec_inv_init: "dec_inv dec_init"
  by (simp add: dec_inv_def dec_init_def)

lemma dec_step_escaped:
  "d_escaped B \<Longrightarrow> dec_step c B = B\<lparr>d_escaped := False, d_out := d_out B @ [c]\<rparr>"
  by (simp add: dec_step_def dec_classify_def)

lemma dec_step_quoted:
  "\<not> d_escaped B \<Longrightarrow> d_quote B \<noteq> nul \<Longrightarrow>
   dec_step c B =
     (if c = d_quote B then B\<lparr>d_quote := nul, d_escaped := (c = bslash)\<rparr>
      else if c = bslash then B\<lparr>d_escaped := True\<rparr>
      else B\<lparr>d_escaped := False, d_out := d_out B @ [c]\<rparr>)"
  by (simp add: dec_step_def dec_classify_def)

lemma dec_step_unquoted:
  "\<not> d_escaped B \<Longrightarrow> d_quote B = nul \<Longrightarrow>
   dec_step c B =
     (if c = squote \<or> c = dquote then
        B\<lparr>d_quote := c, d_wasSpace := False,
          d_start := (if d_wasSpace B then int (length (d_out B)) else d_start B)\<rparr>
      else if c = bslash then
        B\<lparr>d_escaped := True, d_wasSpace := False,
          d_start := (if d_wasSpace B then int (length (d_out B)) else d_start B)\<rparr>
      else if isSpace c then
        (if d_wasSpace B then B\<lparr>d_out := d_out B @ [c]\<rparr>
         else B\<lparr>d_tokens := d_tokens B @ [(d_start B, int (length (d_out B)))],
                d_start := - 1, d_wasSpace := True, d_out := d_out B @ [c]\<rparr>)
      else
        B\<lparr>d_wasSpace := False,
          d_start := (if d_wasSpace B then int (length (d_out B)) else d_start B),
          d_out := d_out B @ [c]\<rparr>)"
  by (simp add: dec_step_def dec_classify_def Let_def)

lemma dec_inv_step: "dec_inv B \<Longrightarrow> dec_inv (dec_step c B)"
proof -
  assume I: "dec_inv B"
  show ?thesis
  proof (cases "d_escaped B")
    case True
    with I show ?thesis
      by (simp add: dec_step_escaped dec_inv_def) force
  next
    case False
    note ne = this
    show ?thesis
    proof (cases "d_quote B = nul")
      case True
      with I ne show ?thesis
        by (simp add: dec_step_unquoted dec_inv_def) force
    next
      case False
      with I ne show ?thesis
        by (simp add: dec_step_quoted dec_inv_def) force
    qed
  qed
qed

lemma dec_inv_run: "dec_inv B \<Longrightarrow> dec_inv (dec_run cs B)"
  by (induction cs arbitrary: B) (simp_all add: dec_inv_step)

lemma dec_run_append: "dec_run (xs @ ys) B = dec_run ys (dec_run xs B)"
  by (induction xs arbitrary: B) simp_all

lemma tok_rel_init: "tok_rel d 0 (tok_init d) dec_init"
  by (simp add: tok_rel_def tok_init_def dec_init_def)

lemma upd_out:
  assumes "n < length orig" "length out = n"
  shows "(out @ drop n orig)[n := c] = (out @ [c]) @ drop (Suc n) orig"
proof -
  have "drop n orig = orig ! n # drop (Suc n) orig"
    using assms(1) by (simp add: Cons_nth_drop_Suc)
  then show ?thesis using assms(2) by (simp add: list_update_append)
qed

lemma tok_body_sim:
  assumes R: "tok_rel orig i st B" and I: "dec_inv B" and lt: "i < length orig"
  shows "\<exists>st'. tok_body i st = Inr st' \<and> tok_rel orig (Suc i) st' (dec_step (orig ! i) B)"
proof -
  let ?n = "length (d_out B)"
  have rd: "data st ! i = orig ! i"
    using R lt by (simp add: tok_rel_def nth_append)
  have nlt: "?n < length orig" using R lt by (simp add: tok_rel_def)
  have sh: "int i - shift st = int ?n" using R by (simp add: tok_rel_def)
  have dat: "data st = d_out B @ drop ?n orig" using R by (simp add: tok_rel_def)
  have wr: "(data st)[?n := c] = (d_out B @ [c]) @ drop (Suc ?n) orig" for c
    using upd_out[OF nlt refl] dat by simp
  have len: "length (data st) = length orig" using dat nlt by simp
  have flds: "tokens st = d_tokens B" "start st = d_start B" "wasSpace st = d_wasSpace B"
    "escaped st = d_escaped B" "quote st = d_quote B" "?n \<le> i"
    using R by (simp_all add: tok_rel_def)
  show ?thesis
  proof (cases "d_escaped B")
    case True
    then show ?thesis
      using flds sh nlt len wr dat[symmetric]
      by (simp add: tok_body_def rd tok_classify_def dec_step_escaped tok_rel_def)
  next
    case False
    note ne = this
    show ?thesis
    proof (cases "d_quote B = nul")
      case True
      have st_ok: "\<not> d_wasSpace B \<Longrightarrow> 0 \<le> d_start B \<and> d_start B \<le> int ?n"
        using dec_inv_start[OF I] dec_inv_wasSpace[OF I] by simp
      show ?thesis
        using ne True flds sh nlt len wr st_ok dat[symmetric]
        by (simp add: tok_body_def rd tok_classify_def dec_step_unquoted tok_rel_def Let_def slice_def)
    next
      case False
      then show ?thesis
        using ne flds sh nlt len wr dat[symmetric]
        by (simp add: tok_body_def rd tok_classify_def dec_step_quoted tok_rel_def)
    qed
  qed
qed

lemma tok_loop_sim:
  assumes "tok_rel orig i st B" "dec_inv B" "i \<le> n" "n \<le> length orig"
  shows "\<exists>st'. tok_loop n i st = Inr st' \<and>
               tok_rel orig n st' (dec_run (take (n - i) (drop i orig)) B)"
  using assms
proof (induction "n - i" arbitrary: i st B)
  case 0
  then show ?case by (simp add: tok_loop.simps)
next
  case (Suc k)
  then have lt: "i < n" "i < length orig" by simp_all
  from tok_body_sim[OF Suc.prems(1,2) lt(2)] obtain st1 where
    b: "tok_body i st = Inr st1" and r: "tok_rel orig (Suc i) st1 (dec_step (orig ! i) B)"
    by blast
  have k: "k = n - Suc i" using Suc.hyps(2) by simp
  from Suc.hyps(1)[OF k r dec_inv_step[OF Suc.prems(2)]] lt Suc.prems obtain st' where
    l: "tok_loop n (Suc i) st1 = Inr st'"
    and r': "tok_rel orig n st' (dec_run (take (n - Suc i) (drop (Suc i) orig)) (dec_step (orig ! i) B))"
    by auto
  have "take (n - i) (drop i orig) = orig ! i # take (n - Suc i) (drop (Suc i) orig)"
    using lt by (metis Cons_nth_drop_Suc Suc_diff_Suc take_Suc_Cons)
  then show ?case using b l r' lt by (simp add: tok_loop.simps[of n i])
qed

lemma tok_loop_prefix:
  assumes "n \<le> length d"
  shows "\<exists>st. tok_loop n 0 (tok_init d) = Inr st \<and> tok_rel d n st (dec_run (take n d) dec_init)"
  using tok_loop_sim[OF tok_rel_init dec_inv_init le0 assms] by simp

lemma bytes_of_append:
  "0 \<le> fst t \<Longrightarrow> fst t \<le> snd t \<Longrightarrow> snd t \<le> int (length out) \<Longrightarrow>
   bytes_of (out @ r) t = bytes_of out t"
  by (simp add: bytes_of_def)

lemma bytes_of_pending:
  "0 \<le> lo \<Longrightarrow> lo \<le> int (length out) \<Longrightarrow>
   bytes_of (out @ r) (lo, int (length out)) = drop (nat lo) out"
  by (simp add: bytes_of_def)

lemma map_bytes_of_append:
  "\<forall>t \<in> set ts. 0 \<le> fst t \<and> fst t \<le> snd t \<and> snd t \<le> int (length out) \<Longrightarrow>
   map (bytes_of (out @ r)) ts = map (bytes_of out) ts"
  by (simp add: bytes_of_append)

lemma dec_abs_step:
  assumes I: "dec_inv B"
  shows "dec_abs (dec_step c B) = lex_step c (dec_abs B)"
proof -
  have tk: "map (bytes_of (d_out B @ r)) (d_tokens B) = map (bytes_of (d_out B)) (d_tokens B)" for r
    by (rule map_bytes_of_append[OF dec_inv_tokens[OF I]])
  note sr = dec_inv_start[OF I]
  have sn: "d_start B \<noteq> - 1 \<Longrightarrow> nat (d_start B) \<le> length (d_out B)"
    using sr by linarith
  note ws = dec_inv_wasSpace[OF I]
  note eq = dec_inv_open[OF I]
  have qr: "d_quote B \<noteq> bslash"
    using dec_inv_quote[OF I] by auto
  show ?thesis
  proof (cases "d_escaped B")
    case True
    then show ?thesis
      using tk sr sn eq by (simp add: dec_step_escaped dec_abs_def opn_def)
  next
    case False
    note ne = this
    show ?thesis
    proof (cases "d_quote B = nul")
      case True
      then show ?thesis
        using ne tk sr sn ws
        by (simp add: dec_step_unquoted dec_abs_def opn_def bytes_of_pending)
    next
      case False
      then show ?thesis
        using ne tk sr sn eq qr by (simp add: dec_step_quoted dec_abs_def opn_def)
    qed
  qed
qed

lemma dec_abs_run: "dec_inv B \<Longrightarrow> dec_abs (dec_run cs B) = lex_run cs (dec_abs B)"
  by (induction cs arbitrary: B) (simp_all add: dec_abs_step dec_inv_step)

lemma dec_abs_init: "dec_abs dec_init = lex_init"
  by (simp add: dec_abs_def dec_init_def lex_init_def)

lemma dec_out_run:
  "dec_inv B \<Longrightarrow> d_out (dec_run cs B) = d_out B @ decode cs (d_escaped B) (d_quote B)"
proof (induction cs arbitrary: B)
  case Nil
  then show ?case by simp
next
  case (Cons c cs)
  note q = dec_inv_quote[OF Cons.prems]
  have "d_out (dec_step c B) @ decode cs (d_escaped (dec_step c B)) (d_quote (dec_step c B))
        = d_out B @ decode (c # cs) (d_escaped B) (d_quote B)"
  proof (cases "d_escaped B")
    case True
    then show ?thesis by (simp add: dec_step_escaped)
  next
    case False
    then show ?thesis
      using q by (cases "d_quote B = nul") (auto simp: dec_step_unquoted dec_step_quoted)
  qed
  then show ?case
    using Cons.IH[OF dec_inv_step[OF Cons.prems]] by simp
qed

lemma tokenize_dec:
  "\<exists>st. tok_loop (length d) 0 (tok_init d) = Inr st \<and>
        tok_rel d (length d) st (dec_run d dec_init)"
  using tok_loop_prefix[of "length d" d] by simp

lemma tokenize_result:
  "tokenize d =
     Inr (d_tokens (dec_run d dec_init) @
            (if d_start (dec_run d dec_init) = - 1 then []
             else [(d_start (dec_run d dec_init), int (length (d_out (dec_run d dec_init))))]),
          d_out (dec_run d dec_init) @ drop (length (d_out (dec_run d dec_init))) d)"
proof -
  let ?B = "dec_run d dec_init"
  obtain st where l: "tok_loop (length d) 0 (tok_init d) = Inr st"
    and r: "tok_rel d (length d) st ?B"
    using tokenize_dec by blast
  have I: "dec_inv ?B" by (simp add: dec_inv_run dec_inv_init)
  have len: "int (length (data st)) - shift st = int (length (d_out ?B))"
    using r by (simp add: tok_rel_def)
  note sr = dec_inv_start[OF I]
  show ?thesis
    using l r sr len
    by (simp add: tokenize_def tok_rel_def slice_def)
qed

lemma tokenize_strings_lex: "tokenize_strings d = Inr (lex_fin (lex_run d lex_init))"
proof -
  let ?B = "dec_run d dec_init"
  have I: "dec_inv ?B" by (simp add: dec_inv_run dec_inv_init)
  have tk: "map (bytes_of (d_out ?B @ r)) (d_tokens ?B) = map (bytes_of (d_out ?B)) (d_tokens ?B)" for r
    by (rule map_bytes_of_append[OF dec_inv_tokens[OF I]])
  note sr = dec_inv_start[OF I]
  have a: "dec_abs ?B = lex_run d lex_init"
    using dec_abs_run[OF dec_inv_init, of d] by (simp add: dec_abs_init)
  have "lex_fin (dec_abs ?B) =
        map (bytes_of (d_out ?B)) (d_tokens ?B) @
          (if d_start ?B = - 1 then [] else [drop (nat (d_start ?B)) (d_out ?B)])"
    by (simp add: dec_abs_def)
  then show ?thesis
    using tk sr unfolding a[symmetric]
    by (simp add: tokenize_strings_def tokenize_result bytes_of_pending)
qed

lemma count_step:
  assumes I: "dec_inv B" and w: "d_wasSpace B \<longrightarrow> ws" and le: "tok_count B \<le> n"
  shows "(d_wasSpace (dec_step c B) \<longrightarrow> isSpace c) \<and>
         tok_count (dec_step c B) \<le> (if ws \<and> \<not> isSpace c then n + 1 else n)"
proof (cases "d_escaped B")
  case True
  with dec_inv_open[OF I] dec_inv_wasSpace[OF I] le show ?thesis
    by (simp add: dec_step_escaped tok_count_def)
next
  case False
  note ne = this
  show ?thesis
  proof (cases "d_quote B = nul")
    case True
    with ne dec_inv_wasSpace[OF I] w le show ?thesis
      by (auto simp: dec_step_unquoted tok_count_def split: if_splits)
  next
    case False
    with ne dec_inv_open[OF I] dec_inv_wasSpace[OF I] le show ?thesis
      by (simp add: dec_step_quoted tok_count_def)
  qed
qed

lemma count_run:
  "dec_inv B \<Longrightarrow> (d_wasSpace B \<longrightarrow> ws) \<Longrightarrow> tok_count B \<le> n \<Longrightarrow>
   tok_count (dec_run cs B) \<le> countMaxTokens_loop cs n ws"
proof (induction cs arbitrary: B n ws)
  case Nil
  then show ?case by simp
next
  case (Cons c cs)
  from count_step[OF Cons.prems, of c]
  have a: "d_wasSpace (dec_step c B) \<longrightarrow> isSpace c"
    and b: "tok_count (dec_step c B) \<le> (if ws \<and> \<not> isSpace c then n + 1 else n)"
    by simp_all
  from Cons.IH[OF dec_inv_step[OF Cons.prems(1)] a b] show ?case
    by (simp add: Let_def)
qed

lemma length_decode: "length (decode cs e q) \<le> length cs"
  by (induction cs arbitrary: e q) (auto simp: le_SucI)

lemma fields_Nil: "split_whitespace [] = []"
  by (simp add: split_whitespace.simps)

lemma fields_space: "isSpace c \<Longrightarrow> split_whitespace (c # s) = split_whitespace s"
  by (simp add: split_whitespace.simps[of "c # s"] split_whitespace.simps[of s])

lemma fields_nonspace:
  "\<not> isSpace c \<Longrightarrow>
   split_whitespace (c # s) = (c # takeWhile (\<lambda>x. \<not> isSpace x) s) # split_whitespace (dropWhile (\<lambda>x. \<not> isSpace x) s)"
  by (simp add: split_whitespace.simps[of "c # s"])

lemma lex_plain:
  assumes "\<forall>c \<in> set s. \<not> special c"
  shows "lex_fin (lex_run s (dn, None, False, nul)) = dn @ split_whitespace s"
    and "lex_fin (lex_run s (dn, Some t, False, nul)) =
           dn @ (t @ takeWhile (\<lambda>x. \<not> isSpace x) s) # split_whitespace (dropWhile (\<lambda>x. \<not> isSpace x) s)"
  using assms
proof (induction s arbitrary: dn t)
  case Nil
  { case 1 show ?case by (simp add: fields_Nil) }
  { case 2 show ?case by (simp add: fields_Nil) }
next
  case (Cons c s)
  { case 1
    then have ns: "\<not> special c" and rest: "\<forall>c \<in> set s. \<not> special c" by simp_all
    show ?case
    proof (cases "isSpace c")
      case True
      then show ?thesis
        using ns Cons.IH(1)[OF rest, of dn] by (simp add: special_def fields_space)
    next
      case False
      then show ?thesis
        using ns Cons.IH(2)[OF rest, of dn "[c]"] by (simp add: special_def fields_nonspace opn_def)
    qed }
  { case 2
    then have ns: "\<not> special c" and rest: "\<forall>c \<in> set s. \<not> special c" by simp_all
    show ?case
    proof (cases "isSpace c")
      case True
      then show ?thesis
        using ns Cons.IH(1)[OF rest, of "dn @ [t]"] by (simp add: special_def fields_space)
    next
      case False
      then show ?thesis
        using ns Cons.IH(2)[OF rest, of dn "t @ [c]"] by (simp add: special_def opn_def)
    qed }
qed

lemma fields_token:
  assumes ne: "t \<noteq> []" and ns: "\<forall>c \<in> set t. \<not> isSpace c"
  shows "split_whitespace t = [t]" and "split_whitespace (t @ CHR '' '' # r) = t # split_whitespace r"
proof -
  obtain c u where t: "t = c # u" using ne by (cases t) auto
  have c: "\<not> isSpace c" and u: "\<forall>x \<in> set u. \<not> isSpace x" using ns t by auto
  have sp: "isSpace (CHR '' '')" by (simp add: isSpace_def)
  have tw: "takeWhile (\<lambda>x. \<not> isSpace x) u = u" using u by (simp add: takeWhile_eq_all_conv)
  have dw: "dropWhile (\<lambda>x. \<not> isSpace x) u = []" using u by (simp add: dropWhile_eq_Nil_conv)
  show "split_whitespace t = [t]"
    unfolding t using c by (simp add: fields_nonspace tw dw fields_Nil)
  have tw2: "takeWhile (\<lambda>x. \<not> isSpace x) (u @ CHR '' '' # r) = u"
    using u sp by (simp add: takeWhile_tail tw)
  have dw2: "dropWhile (\<lambda>x. \<not> isSpace x) (u @ CHR '' '' # r) = CHR '' '' # r"
    using u sp by (simp add: dropWhile_append3 dw)
  show "split_whitespace (t @ CHR '' '' # r) = t # split_whitespace r"
    unfolding t using c sp by (simp add: fields_nonspace tw2 dw2 fields_space)
qed

lemma fields_join:
  "\<forall>t \<in> set ts. t \<noteq> [] \<and> (\<forall>c \<in> set t. \<not> isSpace c) \<Longrightarrow> split_whitespace (join_sp ts) = ts"
proof (induction ts rule: join_sp.induct)
  case 1
  then show ?case by (simp add: fields_Nil)
next
  case (2 t)
  then show ?case by (simp add: fields_token(1))
next
  case (3 t u ts)
  have t: "t \<noteq> []" "\<forall>c \<in> set t. \<not> isSpace c"
    using "3.prems" by simp_all
  have r: "split_whitespace (join_sp (u # ts)) = u # ts"
    using "3.prems" by (intro "3.IH") simp
  have "split_whitespace (t @ CHR '' '' # join_sp (u # ts)) = t # split_whitespace (join_sp (u # ts))"
    by (rule fields_token(2)[OF t])
  then show ?case
    using r by simp
qed

lemma set_join_sp: "set (join_sp ts) \<subseteq> insert (CHR '' '') (\<Union>t \<in> set ts. set t)"
  by (induction ts rule: join_sp.induct) auto

lemma join_plain:
  assumes "\<forall>t \<in> set ts. \<forall>c \<in> set t. \<not> special c"
  shows "\<forall>c \<in> set (join_sp ts). \<not> special c"
proof
  fix c assume "c \<in> set (join_sp ts)"
  then have "c = CHR '' '' \<or> (\<exists>t \<in> set ts. c \<in> set t)"
    using set_join_sp[of ts] by auto
  then show "\<not> special c"
    using assms by (auto simp: special_def)
qed

lemma decoded_rel: "tok_rel d i st B \<Longrightarrow> decoded i st = d_out B"
  by (simp add: tok_rel_def decoded_def)

lemma dec_run_snoc:
  "n < length d \<Longrightarrow> dec_run (take (Suc n) d) B = dec_step (d ! n) (dec_run (take n d) B)"
  by (simp add: take_Suc_conv_app_nth dec_run_append)

lemma tok_prefix_rel:
  assumes "n \<le> length d" "tok_loop n 0 (tok_init d) = Inr st"
  shows "tok_rel d n st (dec_run (take n d) dec_init)"
  using tok_loop_prefix[OF assms(1)] assms(2) by auto

lemma tok_prefix_step:
  assumes k: "k < length d" and st: "tok_loop k 0 (tok_init d) = Inr st"
  shows "\<exists>st1. tok_loop (Suc k) 0 (tok_init d) = Inr st1 \<and>
               tok_rel d (Suc k) st1 (dec_step (d ! k) (dec_run (take k d) dec_init))"
proof -
  have "Suc k \<le> length d" using k by simp
  from tok_loop_prefix[OF this] show ?thesis
    using dec_run_snoc[OF k] by auto
qed


section \<open>The loop of \<open>lineReader.Read\<close> and its replay on lists agree\<close>

lemma rd_rel_init:
  "rd_rel d n 0 \<lparr>r_n = int n, r_shift = 0, r_escaped = False, r_data = d\<rparr> ([], False)"
  by (simp add: rd_rel_def)

lemma read_body_sim:
  assumes R: "rd_rel orig n i st s" and lt: "i < length orig"
  shows "\<exists>st'. read_body i st = Inr st' \<and> rd_rel orig n (Suc i) st' (rd_step s (orig ! i))"
proof -
  obtain out esc where s: "s = (out, esc)" by (cases s)
  have f: "r_escaped st = esc" "int i - r_shift st = int (length out)"
    "r_n st = int n - r_shift st" "take (length out) (r_data st) = out"
    "drop i (r_data st) = drop i orig" "length (r_data st) = length orig"
    "length out \<le> i" "esc \<longrightarrow> out \<noteq> []"
    using R by (simp_all add: rd_rel_def s)
  have rd: "r_data st ! i = orig ! i"
  proof -
    have "drop i (r_data st) ! 0 = drop i orig ! 0" using f(5) by simp
    then show ?thesis using lt f(6) by simp
  qed
  have dS: "drop (Suc i) (r_data st) = drop (Suc i) orig"
    using f(5) by (metis drop_drop plus_1_eq_Suc)
  show ?thesis
  proof (cases "esc \<and> orig ! i = newline")
    case True
    then have ne: "out \<noteq> []" using f(8) by simp
    have tb: "take (length out - Suc 0) (r_data st) = butlast out"
      using f(4) ne by (metis butlast_take One_nat_def f(6) f(7) le_trans less_imp_le_nat lt)
    have l1: "int (length out - Suc 0) = int (length out) - 1"
      using ne by (cases out) simp_all
    have l2: "length out - Suc 0 \<le> Suc i" using f(7) by simp
    show ?thesis
      using True f ne dS tb l1 l2
      by (simp add: read_body_def rd rd_step_def rd_rel_def s Let_def)
  next
    case False
    have lo: "length out < length (r_data st)" using f lt by simp
    have tk: "take (Suc (length out)) ((r_data st)[length out := c]) = out @ [c]" for c
      using lo f(4) by (simp add: take_Suc_conv_app_nth)
    have du: "drop (Suc i) ((r_data st)[length out := c]) = drop (Suc i) orig" for c
      using dS f(7) by simp
    show ?thesis
      using False f lo tk du
      by (auto simp: read_body_def rd rd_step_def rd_rel_def s Let_def)
  qed
qed

lemma rd_run_Cons: "rd_run (c # cs) s = rd_run cs (rd_step s c)"
  by (simp add: rd_run_def)

lemma rd_run_Nil: "rd_run [] s = s"
  by (simp add: rd_run_def)

lemma rd_run_append: "rd_run (xs @ ys) s = rd_run ys (rd_run xs s)"
  by (simp add: rd_run_def)

lemma read_loop_sim:
  assumes "rd_rel orig n i st s" "i \<le> m" "m \<le> length orig"
  shows "\<exists>st'. read_loop m i st = Inr st' \<and>
               rd_rel orig n m st' (rd_run (take (m - i) (drop i orig)) s)"
  using assms
proof (induction "m - i" arbitrary: i st s)
  case 0
  then show ?case by (simp add: read_loop.simps rd_run_Nil)
next
  case (Suc k)
  then have lt: "i < m" "i < length orig" by simp_all
  from read_body_sim[OF Suc.prems(1) lt(2)] obtain st1 where
    b: "read_body i st = Inr st1" and r: "rd_rel orig n (Suc i) st1 (rd_step s (orig ! i))"
    by blast
  have k: "k = m - Suc i" using Suc.hyps(2) by simp
  from Suc.hyps(1)[OF k r] lt Suc.prems obtain st' where
    l: "read_loop m (Suc i) st1 = Inr st'"
    and r': "rd_rel orig n m st' (rd_run (take (m - Suc i) (drop (Suc i) orig)) (rd_step s (orig ! i)))"
    by auto
  have "take (m - i) (drop i orig) = orig ! i # take (m - Suc i) (drop (Suc i) orig)"
    using lt by (metis Cons_nth_drop_Suc Suc_diff_Suc take_Suc_Cons)
  then show ?case using b l r' lt by (simp add: read_loop.simps[of m i] rd_run_Cons)
qed

lemma read_bytes_run:
  assumes "n \<le> length d"
  shows "read_bytes d n = Inr (fst (rd_run (take n d) ([], False)))"
proof -
  let ?s = "rd_run (take n d) ([], False)"
  from read_loop_sim[OF rd_rel_init le0 assms, of n] obtain st where
    l: "read_loop n 0 \<lparr>r_n = int n, r_shift = 0, r_escaped = False, r_data = d\<rparr> = Inr st"
    and r: "rd_rel d n n st ?s"
    by auto
  have m: "r_n st = int (length (fst ?s))" using r by (simp add: rd_rel_def)
  have le: "length (fst ?s) \<le> length (r_data st)" using r assms by (simp add: rd_rel_def)
  have tk: "take (length (fst ?s)) (r_data st) = fst ?s" using r by (simp add: rd_rel_def)
  show ?thesis
    using assms l m le tk by (simp add: read_bytes_def lineReader_Read_def)
qed

lemma rd_frame:
  "(e \<longrightarrow> o2 \<noteq> []) \<Longrightarrow>
   rd_run ys (o1 @ o2, e) = (o1 @ fst (rd_run ys (o2, e)), snd (rd_run ys (o2, e)))"
proof (induction ys arbitrary: o2 e)
  case Nil
  then show ?case by (simp add: rd_run_Nil)
next
  case (Cons c ys)
  show ?case
  proof (cases "e \<and> c = newline")
    case True
    then have ne: "o2 \<noteq> []" using Cons.prems by simp
    have "rd_step (o1 @ o2, e) c = (o1 @ butlast o2, False)"
      using True ne by (simp add: rd_step_def butlast_append)
    moreover have "rd_step (o2, e) c = (butlast o2, False)"
      using True by (simp add: rd_step_def)
    ultimately show ?thesis
      using Cons.IH[of False "butlast o2"] by (simp add: rd_run_Cons)
  next
    case False
    then have "rd_step (o1 @ o2, e) c = (o1 @ (o2 @ [c]), \<not> e \<and> c = bslash)"
      and "rd_step (o2, e) c = (o2 @ [c], \<not> e \<and> c = bslash)"
      by (auto simp: rd_step_def)
    then show ?thesis
      using Cons.IH[of "\<not> e \<and> c = bslash" "o2 @ [c]"] by (simp add: rd_run_Cons)
  qed
qed

lemma trailing_bs_snoc:
  "trailing_bs (xs @ [c]) = (if c = bslash then Suc (trailing_bs xs) else 0)"
  by (simp add: trailing_bs_def)

lemma rd_esc_parity: "snd (rd_run pre ([], False)) = odd (trailing_bs pre)"
proof (induction pre rule: rev_induct)
  case Nil
  then show ?case by (simp add: rd_run_Nil trailing_bs_def)
next
  case (snoc c pre)
  then show ?case
    by (auto simp: rd_run_append rd_run_Cons rd_run_Nil rd_step_def trailing_bs_snoc)
qed

lemma read_bytes_total: "read_bytes ch (length ch) = Inr (fst (rd_run ch ([], False)))"
  using read_bytes_run[of "length ch" ch] by simp

lemma read_chunks_total: "\<exists>r. read_chunks chs = Inr r"
  by (induction chs) (auto simp: read_bytes_total)

lemma rd_run_fresh:
  "snd (rd_run xs ([], False)) = False \<Longrightarrow>
   fst (rd_run (xs @ ys) ([], False)) = fst (rd_run xs ([], False)) @ fst (rd_run ys ([], False))"
proof -
  assume e: "snd (rd_run xs ([], False)) = False"
  have "rd_run xs ([], False) = (fst (rd_run xs ([], False)) @ [], False)"
    using e by (metis append_Nil2 prod.collapse)
  then have "rd_run (xs @ ys) ([], False) = rd_run ys (fst (rd_run xs ([], False)) @ [], False)"
    by (simp add: rd_run_append)
  also have "\<dots> = (fst (rd_run xs ([], False)) @ fst (rd_run ys ([], False)),
                     snd (rd_run ys ([], False)))"
    by (rule rd_frame) simp
  finally show ?thesis by simp
qed

lemma read_chunks_run:
  "\<forall>ch \<in> set (butlast chs). even (trailing_bs ch) \<Longrightarrow>
   read_chunks chs = Inr (fst (rd_run (concat chs) ([], False)))"
proof (induction chs)
  case Nil
  then show ?case by (simp add: rd_run_Nil)
next
  case (Cons ch chs)
  show ?case
  proof (cases "chs = []")
    case True
    then show ?thesis by (simp add: read_bytes_total)
  next
    case False
    then have ev: "even (trailing_bs ch)" and rest: "\<forall>c \<in> set (butlast chs). even (trailing_bs c)"
      using Cons.prems by simp_all
    have "snd (rd_run ch ([], False)) = False"
      using ev by (simp add: rd_esc_parity)
    from rd_run_fresh[OF this, of "concat chs"] Cons.IH[OF rest]
    show ?thesis by (simp add: read_bytes_total)
  qed
qed

lemma trailing_bs_append:
  "trailing_bs (xs @ ys) =
     (if \<forall>c \<in> set ys. c = bslash then length ys + trailing_bs xs else trailing_bs ys)"
  by (simp add: trailing_bs_def takeWhile_append)

lemma chunk_ends_even:
  assumes "\<forall>k. Suc k < length chs \<longrightarrow> even (trailing_bs (concat (take (Suc k) chs)))"
  shows "\<forall>ch \<in> set (butlast chs). even (trailing_bs ch)"
proof
  fix ch assume "ch \<in> set (butlast chs)"
  then obtain k where k: "k < length (butlast chs)" "ch = butlast chs ! k"
    by (auto simp: in_set_conv_nth)
  then have lt: "Suc k < length chs" and ch: "ch = chs ! k"
    by (simp_all add: nth_butlast)
  have prev: "even (trailing_bs (concat (take k chs)))"
  proof (cases k)
    case 0
    then show ?thesis by (simp add: trailing_bs_def)
  next
    case (Suc j)
    then show ?thesis using assms lt by simp
  qed
  have c: "concat (take (Suc k) chs) = concat (take k chs) @ ch"
    using lt ch by (simp add: take_Suc_conv_app_nth)
  have "even (trailing_bs (concat (take (Suc k) chs)))"
    using assms lt by blast
  then have e: "even (trailing_bs (concat (take k chs) @ ch))"
    unfolding c .
  show "even (trailing_bs ch)"
  proof (cases "\<forall>c \<in> set ch. c = bslash")
    case True
    then have "trailing_bs (concat (take k chs) @ ch) = length ch + trailing_bs (concat (take k chs))"
      using trailing_bs_append[of "concat (take k chs)" ch] by simp
    moreover have "trailing_bs ch = length ch"
    proof -
      have tw: "takeWhile (\<lambda>c. c = bslash) (rev ch) = rev ch"
        using True by (intro takeWhile_eq_all_conv[THEN iffD2]) simp
      have "trailing_bs ch = length (rev ch)"
        unfolding trailing_bs_def tw ..
      then show ?thesis by simp
    qed
    ultimately show ?thesis using e prev by simp
  next
    case False
    then have "trailing_bs (concat (take k chs) @ ch) = trailing_bs ch"
      using trailing_bs_append[of "concat (take k chs)" ch] by auto
    then show ?thesis using e by simp
  qed
qed


section \<open>Where the loop of \<open>scanLines\<close> returns\<close>

lemma line_step_loop:
  "\<not> (q = nul \<and> c = newline) \<Longrightarrow>
   scanLines_loop (c # cs) i e q =
     scanLines_loop cs (i + 1) (fst (line_step (e, q) c)) (snd (line_step (e, q) c))"
  by (simp add: line_step_def)

lemma scan_loop_Some:
  "scanLines_loop cs i e q = Some m \<Longrightarrow>
   \<exists>k < length cs. m = i + k \<and> cs ! k = newline \<and>
      snd (foldl line_step (e, q) (take k cs)) = nul \<and>
      (\<forall>j < k. cs ! j = newline \<longrightarrow> snd (foldl line_step (e, q) (take j cs)) \<noteq> nul)"
proof (induction cs arbitrary: i e q)
  case Nil
  then show ?case by simp
next
  case (Cons c cs)
  show ?case
  proof (cases "q = nul \<and> c = newline")
    case True
    then have "m = i" using Cons.prems by simp
    then show ?thesis using True by (intro exI[of _ 0]) simp
  next
    case False
    let ?s = "line_step (e, q) c"
    have "scanLines_loop cs (i + 1) (fst ?s) (snd ?s) = Some m"
      using Cons.prems line_step_loop[OF False] by simp
    from Cons.IH[OF this] obtain k where k: "k < length cs" "m = i + 1 + k" "cs ! k = newline"
      "snd (foldl line_step ?s (take k cs)) = nul"
      "\<forall>j < k. cs ! j = newline \<longrightarrow> snd (foldl line_step ?s (take j cs)) \<noteq> nul"
      by auto
    have all: "(c # cs) ! j = newline \<longrightarrow> snd (foldl line_step (e, q) (take j (c # cs))) \<noteq> nul"
      if "j < Suc k" for j
    proof (cases j)
      case 0
      then show ?thesis using False by auto
    next
      case (Suc j')
      then show ?thesis using k(5) that by simp
    qed
    show ?thesis
      using k(1-4) all by (intro exI[of _ "Suc k"]) simp
  qed
qed

lemma scan_loop_None:
  "scanLines_loop cs i e q = None \<Longrightarrow> k < length cs \<Longrightarrow> cs ! k = newline \<Longrightarrow>
   snd (foldl line_step (e, q) (take k cs)) \<noteq> nul"
proof (induction cs arbitrary: i e q k)
  case Nil
  then show ?case by simp
next
  case (Cons c cs)
  have F: "\<not> (q = nul \<and> c = newline)" using Cons.prems(1) by auto
  let ?s = "line_step (e, q) c"
  have n: "scanLines_loop cs (i + 1) (fst ?s) (snd ?s) = None"
    using Cons.prems(1) line_step_loop[OF F] by simp
  show ?case
  proof (cases k)
    case 0
    then show ?thesis using F Cons.prems by auto
  next
    case (Suc k')
    then show ?thesis using Cons.IH[OF n, of k'] Cons.prems by simp
  qed
qed

lemma scan_loop_first:
  assumes i: "i < length d" "d ! i = newline"
    and q: "snd (line_state (take i d)) = nul"
    and b: "\<forall>j < i. d ! j = newline \<longrightarrow> snd (line_state (take j d)) \<noteq> nul"
  shows "scanLines_loop d 0 False nul = Some i"
proof (cases "scanLines_loop d 0 False nul")
  case None
  from scan_loop_None[OF None i] q show ?thesis by (simp add: line_state_def)
next
  case (Some m)
  from scan_loop_Some[OF Some] obtain k where k: "k < length d" "m = k" "d ! k = newline"
    "snd (line_state (take k d)) = nul"
    "\<forall>j < k. d ! j = newline \<longrightarrow> snd (line_state (take j d)) \<noteq> nul"
    by (auto simp: line_state_def)
  have "\<not> k < i" using b k(3,4) by auto
  moreover have "\<not> i < k" using k(5) i(2) q by auto
  ultimately show ?thesis using Some k(2) by simp
qed

lemma scan_loop_none_iff:
  assumes "\<forall>j < length d. d ! j = newline \<longrightarrow> snd (line_state (take j d)) \<noteq> nul"
  shows "scanLines_loop d 0 False nul = None"
proof (cases "scanLines_loop d 0 False nul")
  case None
  then show ?thesis .
next
  case (Some m)
  from scan_loop_Some[OF Some] assms show ?thesis by (auto simp: line_state_def)
qed

lemma dropCR_eq:
  "dropCR d = (if d \<noteq> [] \<and> last d = cret then butlast d else d)"
  by (cases d rule: rev_cases) (simp_all add: dropCR_def butlast_conv_take)









lemma scan_loop_append:
  "scanLines_loop buf i e q = Some m \<Longrightarrow> scanLines_loop (buf @ r) i e q = Some m"
  by (induction buf i e q rule: scanLines_loop.induct) (auto split: if_splits)

lemma scan_loop_lt: "scanLines_loop buf 0 False nul = Some i \<Longrightarrow> i < length buf"
  using scan_loop_Some[of buf 0 False nul i] by auto

lemma scan_lines_token:
  assumes "scanLines_loop buf 0 False nul = Some i"
  shows "scan_lines buf chs eof =
           (case scan_lines (drop (i + 1) buf) chs eof of
              Inl e \<Rightarrow> Inl e
            | Inr ls \<Rightarrow> Inr (dropCR (take i buf) # ls))"
proof -
  have lt: "i < length buf" by (rule scan_loop_lt[OF assms])
  then have ne: "buf \<noteq> []" by auto
  show ?thesis
    using assms lt ne by (subst scan_lines.simps) (simp add: scanLines_def)
qed

lemma scan_lines_more:
  assumes "buf = [] \<or> scanLines_loop buf 0 False nul = None"
  shows "scan_lines buf chs False =
           (case chs of
              [] \<Rightarrow> scan_lines buf [] True
            | ch # chs' \<Rightarrow>
                (case read_bytes ch (length ch) of
                   Inl e \<Rightarrow> Inl (ReadPanic e)
                 | Inr out \<Rightarrow> scan_lines (buf @ out) chs' False))"
  using assms by (subst scan_lines.simps) (auto simp: scanLines_def split: list.splits sum.splits)




lemma scan_lines_chunks:
  "read_chunks chs = Inr r \<Longrightarrow> scan_lines buf chs False = scan_lines (buf @ r) [] True"
proof (induction chs arbitrary: buf r)
  case Nil
  then have r: "r = []" by simp
  show ?case unfolding r
  proof (induction "length buf" arbitrary: buf rule: less_induct)
    case less
    show ?case
    proof (cases "scanLines_loop buf 0 False nul")
      case None
      then show ?thesis using scan_lines_more[of buf "[]"] by simp
    next
      case (Some i)
      have "length (drop (i + 1) buf) < length buf"
        using scan_loop_lt[OF Some] by simp
      from less[OF this] show ?thesis
        by (simp add: scan_lines_token[OF Some])
    qed
  qed
next
  case (Cons ch chs)
  obtain r' where r': "read_chunks chs = Inr r'" using read_chunks_total by blast
  let ?out = "fst (rd_run ch ([], False))"
  have rb: "read_bytes ch (length ch) = Inr ?out" by (rule read_bytes_total)
  have r: "r = ?out @ r'" using Cons.prems r' rb by simp
  show ?case
  proof (induction "length buf" arbitrary: buf rule: less_induct)
    case less
    show ?case
    proof (cases "scanLines_loop buf 0 False nul")
      case None
      then show ?thesis
        using scan_lines_more[of buf "ch # chs"] Cons.IH[OF r', of "buf @ ?out"] rb r by simp
    next
      case (Some i)
      have lt: "i < length buf" by (rule scan_loop_lt[OF Some])
      then have "length (drop (i + 1) buf) < length buf" by simp
      from less[OF this]
      have ih: "scan_lines (drop (i + 1) buf) (ch # chs) False = scan_lines (drop (i + 1) buf @ r) [] True" .
      have S: "scanLines_loop (buf @ r) 0 False nul = Some i" by (rule scan_loop_append[OF Some])
      have tk: "take i (buf @ r) = take i buf" using lt by simp
      have dr: "drop (i + 1) (buf @ r) = drop (i + 1) buf @ r" using lt by simp
      have R: "scan_lines (buf @ r) [] True =
                 (case scan_lines (drop (i + 1) buf @ r) [] True of
                    Inl e \<Rightarrow> Inl e
                  | Inr ls \<Rightarrow> Inr (dropCR (take i buf) # ls))"
        using scan_lines_token[OF S, of "[]" True] unfolding tk dr .
      show ?thesis
        unfolding R scan_lines_token[OF Some] ih ..
    qed
  qed
qed

lemma assemble_stream: "read_chunks chs = Inr t \<Longrightarrow> assemble chs = scan_lines t [] True"
  using scan_lines_chunks[of chs t "[]"] by (simp add: assemble_def)


section \<open>Properties of the word tokenizer\<close>

text \<open>
  C1. For every input that contains no quote character and no backslash, the tokenizer
  returns exactly the fields obtained by splitting the input on maximal runs of
  whitespace; in particular an empty or all-whitespace input gives the empty token list.
\<close>

theorem tokenize_plain_fields:
  assumes "\<forall>c \<in> set s. c \<noteq> squote \<and> c \<noteq> dquote \<and> c \<noteq> bslash"
  shows "tokenize_strings s = Inr (split_whitespace s)"
  using lex_plain(1)[of s "[]"] assms
  by (simp add: tokenize_strings_lex lex_init_def special_def)

theorem tokenize_plain_fields_witness:
  "list_all (\<lambda>c. c \<noteq> squote \<and> c \<noteq> dquote \<and> c \<noteq> bslash) '' one  two '' \<and>
   tokenize_strings '' one  two '' = Inr [''one'', ''two''] \<and>
   tokenize_strings ''   '' = Inr [] \<and>
   tokenize_strings [] = Inr []"
proof -
  have h1: "\<forall>c \<in> set '' one  two ''. c \<noteq> squote \<and> c \<noteq> dquote \<and> c \<noteq> bslash" by simp
  have h2: "\<forall>c \<in> set ''   ''. c \<noteq> squote \<and> c \<noteq> dquote \<and> c \<noteq> bslash" by simp
  have h3: "\<forall>c \<in> set ([] :: char list). c \<noteq> squote \<and> c \<noteq> dquote \<and> c \<noteq> bslash" by simp
  have sp: "isSpace CHR '' ''" by (simp add: isSpace_def)
  have ns: "\<not> isSpace CHR ''o''" "\<not> isSpace CHR ''n''" "\<not> isSpace CHR ''e''"
    "\<not> isSpace CHR ''t''" "\<not> isSpace CHR ''w''"
    by (simp_all add: isSpace_def)
  have e1: "split_whitespace '' one  two '' = [''one'', ''two'']"
    using sp ns by (simp add: fields_space fields_nonspace fields_Nil)
  have e2: "split_whitespace ''   '' = []"
    using sp by (simp add: fields_space fields_Nil)
  show ?thesis
    using tokenize_plain_fields[OF h1] tokenize_plain_fields[OF h2]
      tokenize_plain_fields[OF h3] e1 e2
    by (simp add: fields_Nil)
qed

text \<open>
  C8. For every input the number of tokens returned is at most \<open>countMaxTokens\<close> of the
  input, the number of maximal runs of non-whitespace bytes counted without regard to
  quotes and backslashes; and the tokenizer does return a token list.
\<close>

theorem tokenize_count_bound:
  "\<exists>ts buf. tokenize d = Inr (ts, buf) \<and> length ts \<le> countMaxTokens d"
proof -
  have "tok_count (dec_run d dec_init) \<le> countMaxTokens_loop d 0 True"
    by (rule count_run[OF dec_inv_init]) (simp_all add: tok_count_def dec_init_def)
  then show ?thesis
    by (auto simp: tokenize_result tok_count_def countMaxTokens_def split: if_splits)
qed

theorem tokenize_count_bound_witness:
  "countMaxTokens [CHR ''a'', bslash, CHR '' '', CHR ''b'', CHR '' '', CHR ''c''] = 3 \<and>
   (\<exists>ts buf. tokenize [CHR ''a'', bslash, CHR '' '', CHR ''b'', CHR '' '', CHR ''c'']
                = Inr (ts, buf) \<and> length ts \<le> 3)"
proof -
  have c: "countMaxTokens [CHR ''a'', bslash, CHR '' '', CHR ''b'', CHR '' '', CHR ''c''] = 3"
    by (simp add: countMaxTokens_def isSpace_def)
  show ?thesis
    using tokenize_count_bound[of "[CHR ''a'', bslash, CHR '' '', CHR ''b'', CHR '' '', CHR ''c'']"]
    unfolding c by simp
qed

text \<open>
  C9, as the specification states it: joining the members of a token list that the
  tokenizer produced, none containing a quote or a backslash, with single spaces and
  tokenizing again gives the same list. The tokenizer returns the one token \<open>a b\<close> for
  the quoted input \<open>'a b'\<close>; that token contains no quote and no backslash, but
  tokenizing it again gives the two tokens \<open>a\<close> and \<open>b\<close>. Likewise the input \<open>''\<close>
  gives one empty token, and tokenizing the empty string gives no token.
\<close>

theorem tokenize_join_roundtrip_counterexample:
  "tokenize_strings [squote, CHR ''a'', CHR '' '', CHR ''b'', squote] = Inr [''a b''] \<and>
   squote \<notin> set ''a b'' \<and> dquote \<notin> set ''a b'' \<and> bslash \<notin> set ''a b'' \<and>
   join_sp [''a b''] = ''a b'' \<and>
   tokenize_strings (join_sp [''a b'']) = Inr [''a'', ''b''] \<and>
   tokenize_strings (join_sp [''a b'']) \<noteq> Inr [''a b''] \<and>
   tokenize_strings [squote, squote] = Inr [[]] \<and>
   tokenize_strings (join_sp [[]]) = Inr [] \<and>
   tokenize_strings (join_sp [[]]) \<noteq> Inr [[]]"
proof -
  have a: "tokenize_strings [squote, CHR ''a'', CHR '' '', CHR ''b'', squote] = Inr [''a b'']"
    by (simp add: tokenize_strings_lex lex_init_def opn_def isSpace_def)
  have b: "tokenize_strings ''a b'' = Inr [''a'', ''b'']"
    by (simp add: tokenize_strings_lex lex_init_def opn_def isSpace_def)
  have c: "tokenize_strings [squote, squote] = Inr [[]]"
    by (simp add: tokenize_strings_lex lex_init_def opn_def isSpace_def)
  have d: "tokenize_strings [] = Inr []"
    by (simp add: tokenize_strings_lex lex_init_def)
  show ?thesis
    using a b c d by simp
qed

text \<open>
  C9, amended: for every list of tokens (in particular every list the tokenizer returns)
  whose members are non-empty and contain no whitespace, no quote and no backslash,
  joining the members with single spaces and tokenizing the result gives the same list.
\<close>

theorem tokenize_join_roundtrip:
  assumes "\<forall>t \<in> set ts. t \<noteq> [] \<and>
             (\<forall>c \<in> set t. \<not> isSpace c \<and> c \<noteq> squote \<and> c \<noteq> dquote \<and> c \<noteq> bslash)"
  shows "tokenize_strings (join_sp ts) = Inr ts"
proof -
  have p: "\<forall>c \<in> set (join_sp ts). \<not> special c"
    using assms by (intro join_plain) (simp add: special_def)
  have f: "split_whitespace (join_sp ts) = ts"
    using assms by (intro fields_join) simp
  show ?thesis
    using lex_plain(1)[OF p, of "[]"] f by (simp add: tokenize_strings_lex lex_init_def)
qed

theorem tokenize_join_roundtrip_witness:
  "list_all (\<lambda>t. t \<noteq> [] \<and>
      list_all (\<lambda>c. \<not> isSpace c \<and> c \<noteq> squote \<and> c \<noteq> dquote \<and> c \<noteq> bslash) t) [''ab'', ''c''] \<and>
   join_sp [''ab'', ''c''] = ''ab c'' \<and>
   tokenize_strings ''ab c'' = Inr [''ab'', ''c'']"
proof -
  have h: "\<forall>t \<in> set [''ab'', ''c''].
      t \<noteq> [] \<and> (\<forall>c \<in> set t. \<not> isSpace c \<and> c \<noteq> squote \<and> c \<noteq> dquote \<and> c \<noteq> bslash)"
    by (simp add: isSpace_def)
  show ?thesis
    using h tokenize_join_roundtrip[OF h] by (simp add: isSpace_def)
qed

text \<open>
  C10. \<open>tokenize\<close> overwrites its argument: after the call the array holds the decoded
  bytes (the input without its structural quotes and backslashes) shifted to the front,
  followed by the input's own bytes from that position on; every token is a slice of
  this array lying inside the decoded prefix, and the strings read from the tokens are
  the bytes the array holds there.
\<close>

theorem tokenize_in_place:
  "\<exists>ts. tokenize d = Inr (ts, decode d False nul @ drop (length (decode d False nul)) d) \<and>
        length (decode d False nul) \<le> length d \<and>
        (\<forall>t \<in> set ts. 0 \<le> fst t \<and> fst t \<le> snd t \<and> snd t \<le> int (length (decode d False nul))) \<and>
        tokenize_strings d = Inr (map (bytes_of (decode d False nul)) ts)"
proof -
  let ?B = "dec_run d dec_init"
  have I: "dec_inv ?B" by (simp add: dec_inv_run dec_inv_init)
  have o: "d_out ?B = decode d False nul"
    using dec_out_run[OF dec_inv_init, of d] by (simp add: dec_init_def)
  let ?ts = "d_tokens ?B @ (if d_start ?B = - 1 then [] else [(d_start ?B, int (length (d_out ?B)))])"
  have b: "\<forall>t \<in> set ?ts. 0 \<le> fst t \<and> fst t \<le> snd t \<and> snd t \<le> int (length (d_out ?B))"
    using dec_inv_tokens[OF I] dec_inv_start[OF I] by auto
  have s: "tokenize_strings d = Inr (map (bytes_of (d_out ?B)) ?ts)"
    using map_bytes_of_append[OF b]
    by (simp add: tokenize_strings_def tokenize_result)
  show ?thesis
    using b s length_decode[of d False nul] unfolding o
    by (intro exI[of _ ?ts]) (simp add: tokenize_result o)
qed

theorem tokenize_in_place_witness:
  "decode [squote, CHR ''a'', squote, CHR '' '', CHR ''b''] False nul = ''a b'' \<and>
   tokenize [squote, CHR ''a'', squote, CHR '' '', CHR ''b''] = Inr ([(0, 1), (2, 3)], ''a b b'') \<and>
   list_all (\<lambda>t. 0 \<le> fst t \<and> fst t \<le> snd t \<and> snd t \<le> int (length ''a b''))
     [(0, 1), (2, 3 :: int)] \<and>
   tokenize_strings [squote, CHR ''a'', squote, CHR '' '', CHR ''b''] = Inr [''a'', ''b''] \<and>
   ''a b b'' \<noteq> [squote, CHR ''a'', squote, CHR '' '', CHR ''b'']"
proof -
  have dc: "decode [squote, CHR ''a'', squote, CHR '' '', CHR ''b''] False nul = ''a b''"
    by simp
  have tk: "tokenize [squote, CHR ''a'', squote, CHR '' '', CHR ''b'']
              = Inr ([(0, 1), (2, 3)], ''a b b'')"
    by code_simp
  show ?thesis
    using tokenize_in_place[of "[squote, CHR ''a'', squote, CHR '' '', CHR ''b'']"]
    unfolding dc tk by (auto simp: bytes_of_def)
qed


text \<open>
  C2. Let the loop of \<open>tokenize\<close> reach a backslash at index \<open>k\<close> while no escape is
  pending. The backslash is not written to the output, adds no token and leaves the quote
  state as it is; a token is open afterwards. Whatever byte follows (whitespace, a quote
  character or another backslash), in every quote state it is appended to the output
  unchanged, inside the open token: it completes no token, changes neither the quote
  state nor the start of the token, and leaves no escape pending, so a double backslash
  gives one backslash and starts no new escape.
\<close>

theorem tokenize_backslash_escape:
  assumes k: "k < length d" and bs: "d ! k = bslash"
    and st: "tok_loop k 0 (tok_init d) = Inr st" and ne: "\<not> escaped st"
  shows "\<exists>st1. tok_loop (k + 1) 0 (tok_init d) = Inr st1 \<and>
           escaped st1 \<and> decoded (k + 1) st1 = decoded k st \<and>
           tokens st1 = tokens st \<and> quote st1 = quote st \<and> \<not> wasSpace st1 \<and>
           start st1 = (if start st = - 1 then int (length (decoded k st)) else start st) \<and>
           0 \<le> start st1 \<and> start st1 \<le> int (length (decoded k st)) \<and>
           (k + 1 < length d \<longrightarrow>
              (\<exists>st2. tok_loop (k + 2) 0 (tok_init d) = Inr st2 \<and>
                 \<not> escaped st2 \<and> decoded (k + 2) st2 = decoded k st @ [d ! (k + 1)] \<and>
                 tokens st2 = tokens st \<and> quote st2 = quote st \<and>
                 start st2 = start st1 \<and> \<not> wasSpace st2))"
proof -
  let ?B = "dec_run (take k d) dec_init"
  let ?B1 = "dec_step (d ! k) ?B"
  have r: "tok_rel d k st ?B"
    using tok_prefix_rel[OF _ st] k by simp
  have I: "dec_inv ?B" by (simp add: dec_inv_run dec_inv_init)
  obtain st1 where l1: "tok_loop (Suc k) 0 (tok_init d) = Inr st1"
    and r1: "tok_rel d (Suc k) st1 ?B1"
    using tok_prefix_step[OF k st] by blast
  have I1: "dec_inv ?B1" by (rule dec_inv_step[OF I])
  have neB: "\<not> d_escaped ?B" using r ne by (simp add: tok_rel_def)
  have q: "d_quote ?B \<noteq> bslash" using dec_inv_quote[OF I] by auto
  have B1: "?B1 = ?B\<lparr>d_escaped := True, d_wasSpace := False,
              d_start := (if d_start ?B = - 1 then int (length (d_out ?B)) else d_start ?B)\<rparr>"
  proof (cases "d_quote ?B = nul")
    case True
    then show ?thesis
      using neB dec_inv_wasSpace[OF I] by (simp add: dec_step_unquoted bs)
  next
    case False
    then show ?thesis
      using neB q dec_inv_open[OF I] dec_inv_wasSpace[OF I] by (simp add: dec_step_quoted bs)
  qed
  have s1: "escaped st1" "decoded (k + 1) st1 = decoded k st" "tokens st1 = tokens st"
    "quote st1 = quote st" "\<not> wasSpace st1"
    "start st1 = (if start st = - 1 then int (length (decoded k st)) else start st)"
    using r r1 decoded_rel[OF r] decoded_rel[OF r1] unfolding B1
    by (simp_all add: tok_rel_def)
  have s1b: "0 \<le> start st1 \<and> start st1 \<le> int (length (decoded k st))"
    using s1(6) dec_inv_start[OF I] r decoded_rel[OF r] by (simp add: tok_rel_def)
  have two: "\<exists>st2. tok_loop (k + 2) 0 (tok_init d) = Inr st2 \<and>
                 \<not> escaped st2 \<and> decoded (k + 2) st2 = decoded k st @ [d ! (k + 1)] \<and>
                 tokens st2 = tokens st \<and> quote st2 = quote st \<and>
                 start st2 = start st1 \<and> \<not> wasSpace st2"
    if k2: "k + 1 < length d"
  proof -
    have k2': "Suc k < length d" using k2 by simp
    obtain st2 where l2: "tok_loop (Suc (Suc k)) 0 (tok_init d) = Inr st2"
      and r2: "tok_rel d (Suc (Suc k)) st2 (dec_step (d ! Suc k) (dec_run (take (Suc k) d) dec_init))"
      using tok_prefix_step[OF k2' l1] by blast
    have e: "dec_run (take (Suc k) d) dec_init = ?B1" by (rule dec_run_snoc[OF k])
    have B2: "dec_step (d ! Suc k) ?B1 = ?B1\<lparr>d_escaped := False, d_out := d_out ?B1 @ [d ! Suc k]\<rparr>"
      by (rule dec_step_escaped) (simp add: B1)
    show ?thesis
      using l2 r2 r r1 decoded_rel[OF r] decoded_rel[OF r1] decoded_rel[OF r2] s1
      unfolding e B2 by (simp add: tok_rel_def B1)
  qed
  show ?thesis
    using l1 s1 s1b two by auto
qed

theorem tokenize_backslash_escape_witness:
  "\<exists>st st2.
     tok_loop 2 0 (tok_init [CHR ''a'', CHR ''b'', bslash, CHR '' '', CHR ''c'']) = Inr st \<and>
     \<not> escaped st \<and> decoded 2 st = ''ab'' \<and>
     tok_loop 4 0 (tok_init [CHR ''a'', CHR ''b'', bslash, CHR '' '', CHR ''c'']) = Inr st2 \<and>
     \<not> escaped st2 \<and> decoded 4 st2 = ''ab '' \<and> tokens st2 = [] \<and> start st2 = 0 \<and>
     tokenize_strings [CHR ''a'', CHR ''b'', bslash, CHR '' '', CHR ''c''] = Inr [''ab c''] \<and>
     tokenize_strings [CHR ''a'', bslash, bslash, CHR ''b''] = Inr [[CHR ''a'', bslash, CHR ''b'']]"
proof -
  let ?d = "[CHR ''a'', CHR ''b'', bslash, CHR '' '', CHR ''c'']"
  let ?st = "\<lparr>tokens = [], start = 0, shift = 0, wasSpace = False, escaped = False,
              quote = nul, data = ?d\<rparr>"
  have st: "tok_loop 2 0 (tok_init ?d) = Inr ?st"
    by code_simp
  have k: "2 < length ?d" and b: "?d ! 2 = bslash" and ne: "\<not> escaped ?st"
    by simp_all
  have dc: "decoded 2 ?st = ''ab''"
    by (simp add: decoded_def)
  have ts: "tokenize_strings ?d = Inr [''ab c'']"
    "tokenize_strings [CHR ''a'', bslash, bslash, CHR ''b''] = Inr [[CHR ''a'', bslash, CHR ''b'']]"
    by (simp_all add: tokenize_strings_lex lex_init_def opn_def isSpace_def)
  from tokenize_backslash_escape[OF k b st ne] obtain st2 where
    "tok_loop 4 0 (tok_init ?d) = Inr st2" "\<not> escaped st2" "decoded 4 st2 = ''ab ''"
    "tokens st2 = []" "start st2 = 0"
    unfolding dc by auto
  then show ?thesis
    using st dc ts by (intro exI[of _ ?st] exI[of _ st2]) simp
qed

text \<open>
  C3. Let the loop of \<open>tokenize\<close> reach a quote character at index \<open>k\<close> while no escape
  is pending. Outside quotes it opens a quoted region of its kind, is not written to the
  output, and a token is open afterwards. Inside a region of its own kind it closes the
  region and is not written to the output. Inside a region of the other kind it is
  appended to the output and the region stays open. In no case is a token completed.
\<close>

theorem tokenize_quotes:
  assumes k: "k < length d" and st: "tok_loop k 0 (tok_init d) = Inr st"
    and ne: "\<not> escaped st" and qc: "d ! k = squote \<or> d ! k = dquote"
  shows "\<exists>st1. tok_loop (k + 1) 0 (tok_init d) = Inr st1 \<and>
           tokens st1 = tokens st \<and> \<not> escaped st1 \<and>
           (if quote st = nul then
              quote st1 = d ! k \<and> decoded (k + 1) st1 = decoded k st \<and> \<not> wasSpace st1 \<and>
              start st1 = (if start st = - 1 then int (length (decoded k st)) else start st)
            else if d ! k = quote st then
              quote st1 = nul \<and> decoded (k + 1) st1 = decoded k st \<and>
              start st1 = start st \<and> wasSpace st1 = wasSpace st
            else
              quote st1 = quote st \<and> decoded (k + 1) st1 = decoded k st @ [d ! k] \<and>
              start st1 = start st \<and> wasSpace st1 = wasSpace st)"
proof -
  let ?B = "dec_run (take k d) dec_init"
  let ?B1 = "dec_step (d ! k) ?B"
  have r: "tok_rel d k st ?B"
    using tok_prefix_rel[OF _ st] k by simp
  have I: "dec_inv ?B" by (simp add: dec_inv_run dec_inv_init)
  obtain st1 where l1: "tok_loop (Suc k) 0 (tok_init d) = Inr st1"
    and r1: "tok_rel d (Suc k) st1 ?B1"
    using tok_prefix_step[OF k st] by blast
  have neB: "\<not> d_escaped ?B" using r ne by (simp add: tok_rel_def)
  have nb: "d ! k \<noteq> bslash" using qc by auto
  have fl: "tokens st = d_tokens ?B" "start st = d_start ?B" "wasSpace st = d_wasSpace ?B"
    "quote st = d_quote ?B" "decoded k st = d_out ?B"
    using r decoded_rel[OF r] by (simp_all add: tok_rel_def)
  have fl1: "tokens st1 = d_tokens ?B1" "start st1 = d_start ?B1" "wasSpace st1 = d_wasSpace ?B1"
    "quote st1 = d_quote ?B1" "decoded (k + 1) st1 = d_out ?B1" "escaped st1 = d_escaped ?B1"
    using r1 decoded_rel[OF r1] by (simp_all add: tok_rel_def)
  have l1': "tok_loop (k + 1) 0 (tok_init d) = Inr st1" using l1 by simp
  have body: "d_tokens ?B1 = d_tokens ?B \<and> \<not> d_escaped ?B1 \<and>
           (if d_quote ?B = nul then
              d_quote ?B1 = d ! k \<and> d_out ?B1 = d_out ?B \<and> \<not> d_wasSpace ?B1 \<and>
              d_start ?B1 = (if d_start ?B = - 1 then int (length (d_out ?B)) else d_start ?B)
            else if d ! k = d_quote ?B then
              d_quote ?B1 = nul \<and> d_out ?B1 = d_out ?B \<and>
              d_start ?B1 = d_start ?B \<and> d_wasSpace ?B1 = d_wasSpace ?B
            else
              d_quote ?B1 = d_quote ?B \<and> d_out ?B1 = d_out ?B @ [d ! k] \<and>
              d_start ?B1 = d_start ?B \<and> d_wasSpace ?B1 = d_wasSpace ?B)"
  proof (cases "d_quote ?B = nul")
    case True
    then show ?thesis
      using neB qc nb dec_inv_wasSpace[OF I] by (auto simp: dec_step_unquoted)
  next
    case False
    then show ?thesis
      using neB qc nb by (auto simp: dec_step_quoted)
  qed
  show ?thesis
    using l1' body unfolding fl[symmetric] fl1[symmetric]
    by (intro exI[of _ st1]) (simp split: if_splits)
qed

theorem tokenize_quotes_witness:
  "\<exists>st st1.
     tok_loop 3 0 (tok_init [dquote, CHR ''a'', CHR '' '', squote, CHR ''b'', dquote]) = Inr st \<and>
     \<not> escaped st \<and> quote st = dquote \<and> decoded 3 st = ''a '' \<and>
     tok_loop 4 0 (tok_init [dquote, CHR ''a'', CHR '' '', squote, CHR ''b'', dquote]) = Inr st1 \<and>
     quote st1 = dquote \<and> decoded 4 st1 = [CHR ''a'', CHR '' '', squote] \<and> tokens st1 = [] \<and>
     tokenize_strings [dquote, CHR ''a'', CHR '' '', squote, CHR ''b'', dquote]
       = Inr [[CHR ''a'', CHR '' '', squote, CHR ''b'']] \<and>
     tokenize_strings [squote, CHR ''a'', CHR '' '', CHR ''b'', squote] = Inr [''a b'']"
proof -
  let ?d = "[dquote, CHR ''a'', CHR '' '', squote, CHR ''b'', dquote]"
  let ?st = "\<lparr>tokens = [], start = 0, shift = 1, wasSpace = False, escaped = False,
              quote = dquote, data = [CHR ''a'', CHR '' '', CHR '' '', squote, CHR ''b'', dquote]\<rparr>"
  have st: "tok_loop 3 0 (tok_init ?d) = Inr ?st"
    by code_simp
  have k: "3 < length ?d" and q: "?d ! 3 = squote \<or> ?d ! 3 = dquote" and ne: "\<not> escaped ?st"
    by simp_all
  have dc: "decoded 3 ?st = ''a ''"
    by (simp add: decoded_def)
  have ts: "tokenize_strings ?d = Inr [[CHR ''a'', CHR '' '', squote, CHR ''b'']]"
    "tokenize_strings [squote, CHR ''a'', CHR '' '', CHR ''b'', squote] = Inr [''a b'']"
    by (simp_all add: tokenize_strings_lex lex_init_def opn_def isSpace_def)
  from tokenize_quotes[OF k st ne q] obtain st1 where
    "tok_loop 4 0 (tok_init ?d) = Inr st1" "quote st1 = dquote"
    "decoded 4 st1 = [CHR ''a'', CHR '' '', squote]" "tokens st1 = []"
    unfolding dc by auto
  then show ?thesis
    using st dc ts by (intro exI[of _ ?st] exI[of _ st1]) simp
qed


section \<open>Properties of the line assembler\<close>

text \<open>
  C4, as the specification states it: a backslash followed by a newline is dropped only
  when the backslash is not escaped and no quote is open; inside a quoted region the two
  bytes stay. In the input \<open>'a\<close>, backslash, newline, \<open>b'\<close> the backslash is not escaped
  and the line scanner's quote state before it is the open single quote, yet \<open>Read\<close> hands
  on \<open>'ab'\<close>: both bytes are dropped.
\<close>

theorem read_continuation_counterexample:
  "line_state [squote, CHR ''a''] = (False, squote) \<and>
   read_bytes [squote, CHR ''a'', bslash, newline, CHR ''b'', squote] 6
     = Inr [squote, CHR ''a'', CHR ''b'', squote]"
proof -
  have a: "line_state [squote, CHR ''a''] = (False, squote)"
    by (simp add: line_state_def line_step_def)
  have b: "read_bytes [squote, CHR ''a'', bslash, newline, CHR ''b'', squote] 6
             = Inr [squote, CHR ''a'', CHR ''b'', squote]"
    by (simp add: read_bytes_run rd_run_def rd_step_def)
  show ?thesis using a b by simp
qed

text \<open>
  C4, amended: a backslash followed by a newline is a continuation exactly when the
  backslash is not itself escaped, that is, when an even number of backslashes stands
  directly before it in the stream; whether a quote is open plays no part. A
  continuation is dropped (both bytes) and the stream before and after it is assembled
  as it would be on its own; a pair whose backslash is escaped is kept. This holds for
  every way the source delivers the stream in which no read ends directly after an
  unescaped backslash; what happens when a read ends there is left open.
\<close>

theorem read_chunks_continuation:
  assumes cc: "concat chs = pre @ bslash # newline # post"
    and ev: "\<forall>k. Suc k < length chs \<longrightarrow> even (trailing_bs (concat (take (Suc k) chs)))"
    and a: "read_chunks [pre] = Inr a"
    and b: "read_chunks [post] = Inr b"
  shows "read_chunks chs =
           Inr (if even (trailing_bs pre) then a @ b else a @ bslash # newline # b)"
proof -
  let ?sp = "rd_run pre ([], False)"
  have a': "fst ?sp = a" using a by (simp add: read_bytes_total)
  have b': "fst (rd_run post ([], False)) = b" using b by (simp add: read_bytes_total)
  have sp: "?sp = (a, odd (trailing_bs pre))"
    using a' rd_esc_parity[of pre] by (metis prod.collapse)
  define e2 where "e2 = snd (rd_run post ([], False))"
  have fr: "rd_run post (x, False) = (x @ b, e2)" for x
    using rd_frame[of False "[]" post x] b' by (simp add: e2_def)
  have "fst (rd_run (pre @ bslash # newline # post) ([], False)) =
          (if even (trailing_bs pre) then a @ b else a @ bslash # newline # b)"
    by (simp add: rd_run_append rd_run_Cons sp rd_step_def fr)
  then show ?thesis
    using read_chunks_run[OF chunk_ends_even[OF ev]] cc by simp
qed

theorem read_chunks_continuation_witness:
  "read_chunks [''a''] = Inr ''a'' \<and> read_chunks [''b''] = Inr ''b'' \<and>
   read_chunks [[CHR ''a''], [bslash, newline, CHR ''b'']] = Inr ''ab'' \<and>
   read_chunks [[CHR ''a'', bslash]] = Inr [CHR ''a'', bslash] \<and>
   read_chunks [[CHR ''a'', bslash, bslash], [newline, CHR ''b'']]
     = Inr [CHR ''a'', bslash, bslash, newline, CHR ''b'']"
proof -
  have a: "read_chunks [''a''] = Inr ''a''"
    by code_simp
  have b: "read_chunks [''b''] = Inr ''b''"
    by code_simp
  have c: "read_chunks [[CHR ''a'', bslash]] = Inr [CHR ''a'', bslash]"
    by code_simp
  have t: "trailing_bs ''a'' = 0" "trailing_bs [CHR ''a'', bslash] = 1"
    by (simp_all add: trailing_bs_def)
  have c1: "concat [[CHR ''a''], [bslash, newline, CHR ''b'']] = ''a'' @ bslash # newline # ''b''"
    by simp
  have e1: "\<forall>k. Suc k < length [[CHR ''a''], [bslash, newline, CHR ''b'']] \<longrightarrow>
              even (trailing_bs (concat (take (Suc k) [[CHR ''a''], [bslash, newline, CHR ''b'']])))"
    by (simp add: trailing_bs_def)
  have c2: "concat [[CHR ''a'', bslash, bslash], [newline, CHR ''b'']]
              = [CHR ''a'', bslash] @ bslash # newline # ''b''"
    by simp
  have e2: "\<forall>k. Suc k < length [[CHR ''a'', bslash, bslash], [newline, CHR ''b'']] \<longrightarrow>
              even (trailing_bs (concat (take (Suc k) [[CHR ''a'', bslash, bslash], [newline, CHR ''b'']])))"
    by (simp add: trailing_bs_def)
  have r1: "read_chunks [[CHR ''a''], [bslash, newline, CHR ''b'']] = Inr ''ab''"
    using read_chunks_continuation[OF c1 e1 a b] unfolding t by simp
  have r2: "read_chunks [[CHR ''a'', bslash, bslash], [newline, CHR ''b'']]
              = Inr [CHR ''a'', bslash, bslash, newline, CHR ''b'']"
    using read_chunks_continuation[OF c2 e2 c b] unfolding t by simp
  show ?thesis
    using a b c r1 r2 by simp
qed

text \<open>
  The escape flag of \<open>Read\<close> is a local variable that is \<open>false\<close> at the start of every
  call. When a read of the source ends directly after an unescaped backslash and the
  next one begins with the newline, the pair is not removed, although \<open>lineReader\<close> is
  documented to remove escaped newlines from its source: the same stream gives the line
  \<open>ab\<close> when it arrives in one read, and two lines, \<open>a\<close> with the backslash and \<open>b\<close>,
  when the first read ends after the backslash.
\<close>

lemma read_chunks_straddle:
  "read_chunks [[CHR ''a'', bslash, newline, CHR ''b'', newline]] = Inr [CHR ''a'', CHR ''b'', newline] \<and>
   read_chunks [[CHR ''a'', bslash], [newline, CHR ''b'', newline]]
     = Inr [CHR ''a'', bslash, newline, CHR ''b'', newline] \<and>
   assemble [[CHR ''a'', bslash, newline, CHR ''b'', newline]] = Inr [''ab''] \<and>
   assemble [[CHR ''a'', bslash], [newline, CHR ''b'', newline]] = Inr [[CHR ''a'', bslash], ''b'']"
  by code_simp





text \<open>
  C7, as the specification states it: a carriage return is dropped exactly when it stands
  directly before the newline that ends the line. For the final line \<open>a\<close>, carriage
  return, with the input at its end and no newline anywhere, \<open>scanLines\<close> returns \<open>a\<close>:
  the carriage return is dropped although no newline follows it.
\<close>

theorem scanLines_carriage_return_counterexample:
  "newline \<notin> set [CHR ''a'', cret] \<and> scanLines [CHR ''a'', cret] True = (2, Some ''a'')"
  by (simp add: scanLines_def dropCR_def)

text \<open>
  C7, amended: the line that \<open>scanLines\<close> returns is the content of the line without its
  last byte when that byte is a carriage return, and the content unchanged otherwise; the
  content ends directly before the newline that ends the line or, for a final line that
  no newline ends, at the end of the input. So a carriage return is dropped exactly when
  it is the last byte of the content, and carriage returns elsewhere are kept.
\<close>

theorem scanLines_carriage_return:
  assumes nt: "\<forall>j < length pre. pre ! j = newline \<longrightarrow> snd (line_state (take j pre)) \<noteq> nul"
  shows "(snd (line_state pre) = nul \<longrightarrow>
            scanLines (pre @ newline # rest) atEOF =
              (length pre + 1, Some (if pre \<noteq> [] \<and> last pre = cret then butlast pre else pre))) \<and>
         (pre \<noteq> [] \<longrightarrow>
            scanLines pre True =
              (length pre, Some (if pre \<noteq> [] \<and> last pre = cret then butlast pre else pre)))"
proof (intro conjI impI)
  assume q: "snd (line_state pre) = nul"
  let ?d = "pre @ newline # rest"
  have i: "length pre < length ?d" "?d ! length pre = newline" by simp_all
  have q': "snd (line_state (take (length pre) ?d)) = nul" using q by simp
  have b: "\<forall>j < length pre. ?d ! j = newline \<longrightarrow> snd (line_state (take j ?d)) \<noteq> nul"
    using nt by (simp add: nth_append)
  have "scanLines_loop ?d 0 False nul = Some (length pre)"
    by (rule scan_loop_first[OF i q' b])
  then show "scanLines ?d atEOF =
      (length pre + 1, Some (if pre \<noteq> [] \<and> last pre = cret then butlast pre else pre))"
    by (simp add: scanLines_def dropCR_eq)
next
  assume ne: "pre \<noteq> []"
  have "scanLines_loop pre 0 False nul = None"
    by (rule scan_loop_none_iff[OF nt])
  then show "scanLines pre True =
      (length pre, Some (if pre \<noteq> [] \<and> last pre = cret then butlast pre else pre))"
    using ne by (simp add: scanLines_def dropCR_eq)
qed

theorem scanLines_carriage_return_witness:
  "scanLines [squote, newline, cret, squote, cret, newline, CHR ''x''] False
     = (6, Some [squote, newline, cret, squote]) \<and>
   scanLines [squote, newline, cret, squote, cret] True = (5, Some [squote, newline, cret, squote]) \<and>
   scanLines [squote, newline, cret, squote, cret, newline, CHR ''x''] True
     = (6, Some [squote, newline, cret, squote])"
proof -
  let ?p = "[squote, newline, cret, squote, cret]"
  have s1: "snd (line_state (take 1 ?p)) = squote"
    by (simp add: line_state_def line_step_def)
  have sp: "snd (line_state ?p) = nul"
    by (simp add: line_state_def line_step_def)
  have nt: "\<forall>j < length ?p. ?p ! j = newline \<longrightarrow> snd (line_state (take j ?p)) \<noteq> nul"
  proof (intro allI impI)
    fix j :: nat assume "j < length ?p" and n: "?p ! j = newline"
    then have "j = 0 \<or> j = 1 \<or> j = 2 \<or> j = 3 \<or> j = 4" by (simp; arith)
    then have "j = 1" using n by auto
    then show "snd (line_state (take j ?p)) \<noteq> nul" using s1 by simp
  qed
  have ne: "?p \<noteq> []" by simp
  from scanLines_carriage_return[OF nt, of "[CHR ''x'']" False]
       scanLines_carriage_return[OF nt, of "[CHR ''x'']" True] sp ne
  show ?thesis by simp
qed



end
